theory Spec2Isabelle
  imports Main
begin

section \<open>The slot registry of slots.ts\<close>

text \<open>
  The module keeps one \<open>SlotInfo\<close> per slot name in the global table \<open>MySlots\<close>.
  A \<open>SlotContext\<close> is a mutable object with the single field \<open>cancel\<close>; contexts are
  shared by reference between the table and the suspended calls of \<open>start\<close>, so they live
  in an explicit store: an address is an index into \<open>heap\<close>, and the cell holds the
  \<open>cancel\<close> flag (\<open>undefined\<close> reads as \<open>False\<close>).  The promises returned by handlers
  live in a second store, \<open>promises\<close>.

  \<open>start\<close> is an async function.  It runs synchronously up to its first \<open>await\<close>; what is
  left of the call is then a suspended continuation, a \<open>task\<close>, that the event loop
  resumes.  The three \<open>await\<close>s of \<open>start\<close> are the three constructors of \<open>wait\<close>.
\<close>

type_synonym Millis = int

record SlotInfo =
  slot_context :: nat
  lastTriggered :: "int option"
  executing :: "nat option"

datatype Mode = Push | Ignore | Cooldown

text \<open>
  A handler is the caller's code.  What a call \<open>handler(context)\<close> does in the end: it
  returns \<open>undefined\<close>, it returns a promise (settled later, from outside), or it throws.
  Before that it may call back into the registry:

  \<^item> \<open>Starts slot mode period h k\<close> is the handler whose body first calls
    \<open>Slots.start(slot, mode, period, h)\<close>, without awaiting it, and then goes on as the
    handler \<open>k\<close>;
  \<^item> \<open>Cancels slot k\<close> first calls \<open>Slots.cancel(slot)\<close> and then goes on as \<open>k\<close>; it
    catches nothing, so that it throws when \<open>cancel\<close> throws;
  \<^item> \<open>Asks slot period k1 k2\<close> first calls \<open>Slots.onCD(slot, period)\<close> and goes on as
    \<open>k1\<close> when the answer is true, as \<open>k2\<close> when it is false.
\<close>

datatype SlotHandler =
    Sync | Async | Throwing
  | Starts string Mode Millis SlotHandler SlotHandler
  | Cancels string SlotHandler
  | Asks string Millis SlotHandler SlotHandler

text \<open>What \<open>handler(context)\<close> evaluates to at line 181.\<close>

datatype returned = Undefined | Promise | Thrown

datatype error = TypeError

datatype pstate = Pending | Resolved | Rejected

datatype wait =
    AtTimer int       \<comment> \<open>line 158: the timer is due at this time\<close>
  | AtExecuting nat   \<comment> \<open>line 170: \<open>await slotInfo.executing\<close> of an earlier call\<close>
  | AtHandler nat     \<comment> \<open>line 185: \<open>await\<close> of the call's own handler promise\<close>

datatype task = Task (t_slot: string) (t_context: nat) (t_handler: SlotHandler) (t_wait: wait)

record world =
  now :: int                              \<comment> \<open>what \<open>timeNow()\<close> returns\<close>
  MySlots :: "string \<rightharpoonup> SlotInfo"
  heap :: "bool list"                     \<comment> \<open>the \<open>cancel\<close> flag of every context\<close>
  promises :: "pstate list"
  tasks :: "task list"                    \<comment> \<open>suspended calls, in the order they suspended\<close>
  calls :: "(string \<times> nat \<times> int) list"   \<comment> \<open>handler invocations: slot, context, time\<close>
  rejected :: "nat list"                  \<comment> \<open>contexts of the \<open>start\<close> calls that ended in an error\<close>

definition init :: world where
  "init = \<lparr>now = 0, MySlots = Map.empty, heap = [], promises = [], tasks = [],
           calls = [], rejected = []\<rparr>"

subsection \<open>Stores\<close>

definition flag :: "world \<Rightarrow> nat \<Rightarrow> bool" where
  "flag w c = (c < length (heap w) \<and> heap w ! c)"

definition set_cancel :: "nat \<Rightarrow> world \<Rightarrow> world" where
  "set_cancel c w = w\<lparr>heap := (heap w)[c := True]\<rparr>"

definition pstate_of :: "world \<Rightarrow> nat \<Rightarrow> pstate" where
  "pstate_of w p = (if p < length (promises w) then promises w ! p else Pending)"

text \<open>
  \<open>slotInfo\<close> dereferences the object that \<open>getOrCreateSlotInfo\<close> returned earlier for
  this slot.  Entries of \<open>MySlots\<close> are never removed, so the \<open>None\<close> branch is only there
  to make the function total.
\<close>

definition slotInfo :: "world \<Rightarrow> string \<Rightarrow> SlotInfo" where
  "slotInfo w slot = (case MySlots w slot of
      Some si \<Rightarrow> si
    | None \<Rightarrow> \<lparr>slot_context = 0, lastTriggered = None, executing = None\<rparr>)"

definition setSlot :: "string \<Rightarrow> SlotInfo \<Rightarrow> world \<Rightarrow> world" where
  "setSlot slot si w = w\<lparr>MySlots := (MySlots w)(slot \<mapsto> si)\<rparr>"

subsection \<open>getOrCreateSlotInfo, timeNow, onCD, cancel\<close>

text \<open>
  \<open>MySlots\<close> is the plain object \<open>{}\<close> of line 45, so the lookup \<open>MySlots[slot]\<close> of line
  50 also finds what the object inherits from \<open>Object.prototype\<close>.  For these names the
  lookup is truthy, no \<open>SlotInfo\<close> is created, and what \<open>getOrCreateSlotInfo\<close> returns is
  a function or object that has no \<open>context\<close>, no \<open>lastTriggered\<close> and no \<open>executing\<close>:
  it is the result \<open>None\<close> of the model.  The table of the model holds the own
  properties of \<open>MySlots\<close>.
\<close>

definition inherited :: "string \<Rightarrow> bool" where
  "inherited slot = (slot \<in> set
     [''constructor'', ''hasOwnProperty'', ''isPrototypeOf'', ''propertyIsEnumerable'',
      ''toLocaleString'', ''toString'', ''valueOf'', ''__proto__'',
      ''__defineGetter__'', ''__defineSetter__'', ''__lookupGetter__'', ''__lookupSetter__''])"

definition getOrCreateSlotInfo :: "string \<Rightarrow> world \<Rightarrow> SlotInfo option \<times> world" where
  "getOrCreateSlotInfo slot w = (case MySlots w slot of
      Some si \<Rightarrow> (Some si, w)
    | None \<Rightarrow>
        if inherited slot then (None, w)
        else
          (let si = \<lparr>slot_context = length (heap w), lastTriggered = None, executing = None\<rparr>
           in (Some si, w\<lparr>heap := heap w @ [True], MySlots := (MySlots w)(slot \<mapsto> si)\<rparr>)))"

definition timeNow :: "world \<Rightarrow> int" where
  "timeNow w = now w"

text \<open>The operator \<open>??\<close>: the left operand unless it is \<open>undefined\<close>.\<close>

fun nullish :: "'a option \<Rightarrow> 'a \<Rightarrow> 'a" where
  "nullish (Some x) d = x"
| "nullish None d = d"

text \<open>
  The expression of lines 74 and 132.  \<open>slotInfo.lastTriggered\<close> is \<open>undefined\<close> also when
  \<open>slotInfo\<close> is an inherited value.
\<close>

definition timeToNext :: "SlotInfo option \<Rightarrow> Millis \<Rightarrow> world \<Rightarrow> int" where
  "timeToNext v period w =
     nullish (case v of None \<Rightarrow> None | Some si \<Rightarrow> lastTriggered si) (- period)
       + period - timeNow w"

definition onCD :: "string \<Rightarrow> Millis \<Rightarrow> world \<Rightarrow> bool \<times> world" where
  "onCD slot period w =
     (let (v, w1) = getOrCreateSlotInfo slot w
      in (\<not> (timeToNext v period w1 \<le> 0), w1))"

text \<open>
  Line 199 writes \<open>slotInfo.context.cancel\<close>.  When \<open>slotInfo\<close> is an inherited value,
  \<open>slotInfo.context\<close> is \<open>undefined\<close> and the write throws a \<open>TypeError\<close>.
\<close>

definition cancel :: "string \<Rightarrow> world \<Rightarrow> error + world" where
  "cancel slot w =
     (let (v, w1) = getOrCreateSlotInfo slot w
      in case v of
           None \<Rightarrow> Inl TypeError
         | Some si \<Rightarrow> Inr (set_cancel (slot_context si) w1))"

subsection \<open>start\<close>

text \<open>Lines 186 to 192, after the handler's promise has resolved.\<close>

definition afterHandler :: "string \<Rightarrow> nat \<Rightarrow> world \<Rightarrow> world" where
  "afterHandler slot c w =
     set_cancel c (setSlot slot ((slotInfo w slot)\<lparr>executing := None\<rparr>) w)"

text \<open>Lines 127 to 145: the period that a call really waits, and the mode it continues in.\<close>

definition effective :: "Mode \<Rightarrow> Millis \<Rightarrow> SlotInfo option \<Rightarrow> world \<Rightarrow> Mode \<times> Millis" where
  "effective mode period v w =
     (if mode = Cooldown
      then (let ttn = timeToNext v period w
            in (Ignore, if ttn \<le> 0 then 0 else ttn))
      else (mode, period))"

text \<open>
  The delay that \<open>setTimeout\<close> really uses for the one it is given at line 159, in
  Node.js and with the fake timers of the repository's tests: a delay above \<open>2^31 - 1\<close>
  milliseconds becomes 1 millisecond.  A negative delay is taken as 0; no theorem below
  depends on it.
\<close>

definition setTimeout_delay :: "Millis \<Rightarrow> Millis" where
  "setTimeout_delay period = (if 2147483647 < period then 1 else max period 0)"

text \<open>
  \<open>start\<close> and its continuations, with the handler they call.  The handler is called at
  line 181, after the trigger time is written at line 179 and before \<open>executing\<close> is
  written at line 184: whatever the body of the handler does to the registry happens in
  between.

  \<^item> \<open>invoke\<close> is lines 179 to 192;
  \<^item> \<open>call_handler\<close> is the body of the handler, with the calls of \<open>start\<close> it makes;
  \<^item> \<open>afterExecuting\<close> is line 177 onwards;
  \<^item> \<open>afterTimer\<close> is lines 165 to 170: awaiting a pending promise parks the call;
    awaiting a promise that is already settled resumes the call in the next microtask,
    before anything else can touch the registry, so the model continues at once, with line
    177 when the promise is resolved, with the rejection thrown out of \<open>start\<close> when it is
    rejected;
  \<^item> \<open>start\<close> is the call up to its first \<open>await\<close>.  When \<open>getOrCreateSlotInfo\<close> returned
    an inherited value, line 149 or line 151 throws a \<open>TypeError\<close>, after the context
    object of line 125 has been made: the promise that \<open>start\<close> returns is rejected.
\<close>

function invoke :: "string \<Rightarrow> nat \<Rightarrow> SlotHandler \<Rightarrow> world \<Rightarrow> world"
  and call_handler :: "SlotHandler \<Rightarrow> world \<Rightarrow> returned \<times> world"
  and afterExecuting :: "string \<Rightarrow> nat \<Rightarrow> SlotHandler \<Rightarrow> world \<Rightarrow> world"
  and afterTimer :: "string \<Rightarrow> nat \<Rightarrow> SlotHandler \<Rightarrow> world \<Rightarrow> world"
  and start :: "string \<Rightarrow> Mode \<Rightarrow> Millis \<Rightarrow> SlotHandler \<Rightarrow> world \<Rightarrow> world"
where
  "invoke slot c h w =
     (let si = slotInfo w slot;
          lt = max (nullish (lastTriggered si) (timeNow w)) (timeNow w);
          w1 = setSlot slot (si\<lparr>lastTriggered := Some lt\<rparr>) w;
          w2 = w1\<lparr>calls := calls w1 @ [(slot, c, timeNow w)]\<rparr>;
          (r, w3) = call_handler h w2
      in case r of
           Thrown \<Rightarrow> w3\<lparr>rejected := rejected w3 @ [c]\<rparr>
         | Undefined \<Rightarrow> set_cancel c w3
         | Promise \<Rightarrow>
            (let p = length (promises w3);
                 w4 = w3\<lparr>promises := promises w3 @ [Pending]\<rparr>;
                 w5 = setSlot slot ((slotInfo w4 slot)\<lparr>executing := Some p\<rparr>) w4
             in w5\<lparr>tasks := tasks w5 @ [Task slot c h (AtHandler p)]\<rparr>))"
| "call_handler Sync w = (Undefined, w)"
| "call_handler Async w = (Promise, w)"
| "call_handler Throwing w = (Thrown, w)"
| "call_handler (Starts slot mode period h k) w = call_handler k (start slot mode period h w)"
| "call_handler (Cancels slot k) w =
     (case cancel slot w of Inl e \<Rightarrow> (Thrown, w) | Inr w' \<Rightarrow> call_handler k w')"
| "call_handler (Asks slot period k1 k2) w =
     (if fst (onCD slot period w) then call_handler k1 (snd (onCD slot period w))
      else call_handler k2 (snd (onCD slot period w)))"
| "afterExecuting slot c h w = (if flag w c then w else invoke slot c h w)"
| "afterTimer slot c h w =
     (if flag w c then w
      else case executing (slotInfo w slot) of
             None \<Rightarrow> afterExecuting slot c h w
           | Some p \<Rightarrow>
               (case pstate_of w p of
                  Pending \<Rightarrow> w\<lparr>tasks := tasks w @ [Task slot c h (AtExecuting p)]\<rparr>
                | Resolved \<Rightarrow> afterExecuting slot c h w
                | Rejected \<Rightarrow> w\<lparr>rejected := rejected w @ [c]\<rparr>))"
| "start slot mode period handler w =
     (let (v, w1) = getOrCreateSlotInfo slot w;
          c = length (heap w1);
          w2 = w1\<lparr>heap := heap w1 @ [False]\<rparr>
      in case v of
           None \<Rightarrow> w2\<lparr>rejected := rejected w2 @ [c]\<rparr>
         | Some si \<Rightarrow>
            (let (mode', period') = effective mode period v w2
             in if mode' \<noteq> Push \<and> \<not> flag w2 (slot_context si) then w2
                else
                  (let w3 = (if mode' = Push then set_cancel (slot_context si) w2 else w2);
                       w4 = setSlot slot ((slotInfo w3 slot)\<lparr>slot_context := c\<rparr>) w3
                   in if period' \<noteq> 0
                      then w4\<lparr>tasks := tasks w4 @
                               [Task slot c handler
                                  (AtTimer (timeNow w4 + setTimeout_delay period'))]\<rparr>
                      else afterTimer slot c handler w4)))"
  by pat_completeness auto

termination
  apply (relation "measure (\<lambda>x. case x of
      Inl (Inl (slot, c, h, w)) \<Rightarrow> 5 * size h + 1
    | Inl (Inr (h, w)) \<Rightarrow> 5 * size h
    | Inr (Inl (slot, c, h, w)) \<Rightarrow> 5 * size h + 2
    | Inr (Inr (Inl (slot, c, h, w))) \<Rightarrow> 5 * size h + 3
    | Inr (Inr (Inr (slot, mode, period, h, w))) \<Rightarrow> 5 * size h + 4)")
  apply simp_all
  done

subsection \<open>The event loop\<close>

text \<open>
  JavaScript runs one piece of code to completion before the next: a call of \<open>start\<close>,
  \<open>cancel\<close> or \<open>onCD\<close> up to its return or first \<open>await\<close>, the continuation of a
  suspended call up to its next \<open>await\<close>.  An event of the model is one such piece, or a
  movement of the clock together with the continuations of the timers that become due,
  or the settling of a handler's promise together with the continuations that await it.
  When a handler's promise settles is for the environment to say: a test that uses
  \<open>delay(3000)\<close> as handler is the event sequence that settles the promise 3000
  milliseconds after the invocation.  The timers of the model are exact, as the fake
  timers of the repository's tests are: a timer set at time \<open>t\<close> that \<open>setTimeout\<close>
  delays by \<open>d\<close> fires when the clock shows \<open>t + d\<close>.
\<close>

fun is_timer :: "task \<Rightarrow> bool" where
  "is_timer (Task _ _ _ (AtTimer _)) = True"
| "is_timer _ = False"

fun due_of :: "task \<Rightarrow> int" where
  "due_of (Task _ _ _ (AtTimer d)) = d"
| "due_of _ = 0"

fun awaits :: "nat \<Rightarrow> task \<Rightarrow> bool" where
  "awaits p (Task _ _ _ (AtExecuting q)) = (p = q)"
| "awaits p (Task _ _ _ (AtHandler q)) = (p = q)"
| "awaits p _ = False"

text \<open>A timer fires: the call leaves the task list and continues at line 165.\<close>

definition fire :: "task \<Rightarrow> world \<Rightarrow> world" where
  "fire t w =
     afterTimer (t_slot t) (t_context t) (t_handler t)
       (w\<lparr>now := max (now w) (due_of t), tasks := remove1 t (tasks w)\<rparr>)"

text \<open>
  The clock moves forward by \<open>d\<close> milliseconds.  Every timer that becomes due fires at
  its due time, earliest first and in the order of their creation among equals.
\<close>

definition advance :: "nat \<Rightarrow> world \<Rightarrow> world" where
  "advance d w =
     (let target = now w + int d;
          due = sort_key due_of (filter (\<lambda>t. is_timer t \<and> due_of t \<le> target) (tasks w))
      in (foldl (\<lambda>w t. fire t w) w due)\<lparr>now := target\<rparr>)"

text \<open>
  A suspended call that awaited promise \<open>p\<close> continues: an \<open>await\<close> of a rejected promise
  throws, and nothing in \<open>start\<close> catches it.
\<close>

definition resume :: "bool \<Rightarrow> task \<Rightarrow> world \<Rightarrow> world" where
  "resume ok t w =
     (if \<not> ok then w\<lparr>rejected := rejected w @ [t_context t]\<rparr>
      else case t_wait t of
             AtHandler _ \<Rightarrow> afterHandler (t_slot t) (t_context t) w
           | AtExecuting _ \<Rightarrow> afterExecuting (t_slot t) (t_context t) (t_handler t) w
           | AtTimer _ \<Rightarrow> w)"

text \<open>
  A handler's promise settles.  The calls that await it continue one after the other, in
  the order in which they started to wait.
\<close>

definition settle :: "nat \<Rightarrow> bool \<Rightarrow> world \<Rightarrow> world" where
  "settle p ok w =
     (if p < length (promises w) \<and> promises w ! p = Pending
      then (let ws = filter (awaits p) (tasks w);
                w1 = w\<lparr>promises := (promises w)[p := (if ok then Resolved else Rejected)],
                       tasks := filter (\<lambda>t. \<not> awaits p t) (tasks w)\<rparr>
            in foldl (\<lambda>w t. resume ok t w) w1 ws)
      else w)"

datatype event =
    Start string Mode Millis SlotHandler
  | Cancel string
  | OnCD string Millis
  | Advance nat
  | Settle nat bool

fun step :: "event \<Rightarrow> world \<Rightarrow> world" where
  "step (Start slot mode period handler) w = start slot mode period handler w"
| "step (Cancel slot) w = (case cancel slot w of Inl _ \<Rightarrow> w | Inr w' \<Rightarrow> w')"
| "step (OnCD slot period) w = snd (onCD slot period w)"
| "step (Advance d) w = advance d w"
| "step (Settle p ok) w = settle p ok w"

definition run :: "event list \<Rightarrow> world \<Rightarrow> world" where
  "run evs w = foldl (\<lambda>w e. step e w) w evs"

section \<open>Observations and the invariant of the registry\<close>

subsection \<open>What a run shows\<close>

text \<open>The handler invocations of one slot, oldest first.\<close>

definition calls_on :: "string \<Rightarrow> world \<Rightarrow> (string \<times> nat \<times> int) list" where
  "calls_on slot w = filter (\<lambda>e. fst e = slot) (calls w)"

text \<open>
  A handler invocation of the slot is in flight: the call that made it still awaits the
  handler's promise \<open>p\<close>, and \<open>p\<close> has not settled.
\<close>

definition in_flight :: "world \<Rightarrow> string \<Rightarrow> nat \<Rightarrow> bool" where
  "in_flight w slot p = (pstate_of w p = Pending \<and>
      (\<exists>t\<in>set (tasks w). t_slot t = slot \<and> t_wait t = AtHandler p))"

text \<open>
  A burst of push calls on one slot with one period: each call is followed by a pause of
  \<open>d\<close> milliseconds before the next one.
\<close>

fun pushes :: "string \<Rightarrow> Millis \<Rightarrow> (SlotHandler \<times> nat) list \<Rightarrow> event list" where
  "pushes slot period [] = []"
| "pushes slot period ((h, d) # xs) = Start slot Push period h # Advance d # pushes slot period xs"

text \<open>The order on trigger times: \<open>undefined\<close> lies below every time.\<close>

fun lt_le :: "int option \<Rightarrow> int option \<Rightarrow> bool" where
  "lt_le None _ = True"
| "lt_le (Some a) (Some b) = (a \<le> b)"
| "lt_le (Some a) None = False"

subsection \<open>Handlers that leave the registry alone\<close>

text \<open>
  A plain handler does not call back into the registry.  A plain event is one that passes
  no other handler to \<open>start\<close>.
\<close>

fun plain :: "SlotHandler \<Rightarrow> bool" where
  "plain (Starts _ _ _ _ _) = False"
| "plain (Cancels _ _) = False"
| "plain (Asks _ _ _ _) = False"
| "plain _ = True"

fun plain_event :: "event \<Rightarrow> bool" where
  "plain_event (Start _ _ _ h) = plain h"
| "plain_event _ = True"

definition plain_tasks :: "world \<Rightarrow> bool" where
  "plain_tasks w = (\<forall>t\<in>set (tasks w). plain (t_handler t))"

text \<open>
  The name can be used as a slot: the table has state for it, or line 51 will create it,
  because the lookup of line 50 finds nothing for the name.
\<close>

definition usable :: "world \<Rightarrow> string \<Rightarrow> bool" where
  "usable w slot = (MySlots w slot \<noteq> None \<or> \<not> inherited slot)"

subsection \<open>The invariant\<close>

text \<open>
  In the list of suspended calls, the call that awaits its own handler's promise comes
  before every call that waits for that promise at line 170: nothing that awaits \<open>p\<close>
  is followed by the owner of \<open>p\<close>.
\<close>

fun owner_first :: "task list \<Rightarrow> bool" where
  "owner_first [] = True"
| "owner_first (t # ts) =
     (owner_first ts \<and> (\<forall>u\<in>set ts. \<forall>p. t_wait u = AtHandler p \<longrightarrow> \<not> awaits p t))"

text \<open>Suspended calls refer to contexts and slots that exist.\<close>

definition wf_tasks :: "world \<Rightarrow> bool" where
  "wf_tasks w = (\<forall>t\<in>set (tasks w). t_context t < length (heap w) \<and> t_slot t \<in> dom (MySlots w))"

definition wf_slots :: "world \<Rightarrow> bool" where
  "wf_slots w = (\<forall>s\<in>dom (MySlots w). slot_context (slotInfo w s) < length (heap w))"

text \<open>
  The comment at line 172: among the suspended calls of a slot, only the one whose context
  is the slot's current context can have \<open>cancel\<close> unset.
\<close>

definition current :: "world \<Rightarrow> bool" where
  "current w = (\<forall>t\<in>set (tasks w). \<not> flag w (t_context t) \<longrightarrow>
                   slot_context (slotInfo w (t_slot t)) = t_context t)"

text \<open>
  A call that awaits a promise awaits the pending promise recorded in \<open>executing\<close> of its
  slot; and a pending \<open>executing\<close> is awaited by the call that owns it.
\<close>

definition waiting :: "world \<Rightarrow> bool" where
  "waiting w = (\<forall>t\<in>set (tasks w). \<forall>p. awaits p t \<longrightarrow>
       p < length (promises w) \<and> promises w ! p = Pending \<and>
       executing (slotInfo w (t_slot t)) = Some p)"

definition exec_ok :: "world \<Rightarrow> bool" where
  "exec_ok w = (\<forall>s p. executing (slotInfo w s) = Some p \<longrightarrow>
       p < length (promises w) \<and> promises w ! p \<noteq> Resolved \<and>
       (promises w ! p = Pending \<longrightarrow>
          (\<exists>t\<in>set (tasks w). t_slot t = s \<and> t_wait t = AtHandler p)))"

text \<open>
  The invariant of the registry as long as all handlers are plain.  A handler that calls
  \<open>start\<close> on its own slot breaks it: see the last section.
\<close>

definition Inv :: "world \<Rightarrow> bool" where
  "Inv w = (wf_tasks w \<and> wf_slots w \<and> distinct (map t_context (tasks w)) \<and> current w \<and>
            waiting w \<and> owner_first (tasks w) \<and> exec_ok w \<and> plain_tasks w)"

text \<open>The trigger time of slot \<open>s\<close> in \<open>w'\<close> is not before the one in \<open>w\<close>.\<close>

definition grows :: "string \<Rightarrow> world \<Rightarrow> world \<Rightarrow> bool" where
  "grows s w w' = lt_le (lastTriggered (slotInfo w s)) (lastTriggered (slotInfo w' s))"

text \<open>
  A call with context \<open>c\<close> on slot \<open>s\<close> may continue in \<open>w\<close>: the context exists, no
  suspended call uses it, and it is the current one unless cancelled.
\<close>

definition admissible :: "world \<Rightarrow> string \<Rightarrow> nat \<Rightarrow> bool" where
  "admissible w s c = (c < length (heap w) \<and> c \<notin> t_context ` set (tasks w) \<and>
      s \<in> dom (MySlots w) \<and> (\<not> flag w c \<longrightarrow> slot_context (slotInfo w s) = c))"

text \<open>
  The slot records an execution that has not resolved; a timer of the slot that fires
  now cannot reach the handler.  A task is quiet for slot \<open>s\<close> when firing it cannot
  invoke a handler of \<open>s\<close>.
\<close>

definition busy :: "world \<Rightarrow> string \<Rightarrow> bool" where
  "busy w slot = (\<exists>p. executing (slotInfo w slot) = Some p \<and> pstate_of w p \<noteq> Resolved)"

definition quiet :: "world \<Rightarrow> string \<Rightarrow> task \<Rightarrow> bool" where
  "quiet w s t = (t_slot t = s \<longrightarrow> flag w (t_context t) \<or> busy w s)"

text \<open>The latest call of the slot, \<open>T\<close>, waits for its timer and nothing executes.\<close>

definition pending_on :: "world \<Rightarrow> string \<Rightarrow> task \<Rightarrow> bool" where
  "pending_on w s T = (Inv w \<and> T \<in> set (tasks w) \<and> is_timer T \<and> t_slot T = s \<and>
      slot_context (slotInfo w s) = t_context T \<and> \<not> flag w (t_context T) \<and>
      executing (slotInfo w s) = None)"

text \<open>
  The first half of \<open>start\<close> in two steps: the world after line 125 (the slot exists, the
  call's context is allocated), and the world after line 155 (the context is installed).
\<close>

definition allocated :: "string \<Rightarrow> world \<Rightarrow> world" where
  "allocated s w = (let w1 = snd (getOrCreateSlotInfo s w) in w1\<lparr>heap := heap w1 @ [False]\<rparr>)"

definition installed :: "string \<Rightarrow> Mode \<Rightarrow> world \<Rightarrow> world" where
  "installed s m w =
     (let w2 = allocated s w;
          w3 = (if m = Push then set_cancel (slot_context (slotInfo w2 s)) w2 else w2)
      in setSlot s ((slotInfo w3 s)\<lparr>slot_context := length (heap w2) - 1\<rparr>) w3)"

subsection \<open>What every call preserves\<close>

text \<open>
  What every piece of the registry's code does to the world, whatever the handlers do:
  the clock stands still, the invocation log is extended, contexts and slots are only
  added, no trigger time decreases, and a trigger time that is not before the clock
  stays as it is.
\<close>

definition ext :: "world \<Rightarrow> world \<Rightarrow> bool" where
  "ext w w' = (now w' = now w \<and> (\<exists>xs. calls w' = calls w @ xs) \<and>
      length (heap w) \<le> length (heap w') \<and> dom (MySlots w) \<subseteq> dom (MySlots w') \<and>
      (\<forall>s. grows s w w') \<and>
      (\<forall>s l. lastTriggered (slotInfo w s) = Some l \<and> now w \<le> l \<longrightarrow>
             lastTriggered (slotInfo w' s) = Some l))"

text \<open>
  The part of the invariant that no handler can break: the current context of every slot
  exists, and every suspended call belongs to a slot of the table.
\<close>

definition wf_registry :: "world \<Rightarrow> bool" where
  "wf_registry w = (wf_slots w \<and> (\<forall>t\<in>set (tasks w). t_slot t \<in> dom (MySlots w)))"

declare invoke.simps [simp del] afterExecuting.simps [simp del] afterTimer.simps [simp del]
  start.simps [simp del]

section \<open>The invariant is preserved\<close>

subsection \<open>Lists of suspended calls\<close>

lemma owner_first_snoc:
  "owner_first (ts @ [t]) =
     (owner_first ts \<and> (\<forall>p. t_wait t = AtHandler p \<longrightarrow> (\<forall>u\<in>set ts. \<not> awaits p u)))"
proof (induction ts)
  case Nil
  show ?case by simp
next
  case (Cons a ts)
  show ?case unfolding append_Cons owner_first.simps Cons.IH
    by (simp add: ball_Un) blast
qed

lemma owner_first_filter: "owner_first ts \<Longrightarrow> owner_first (filter P ts)"
  by (induction ts) auto

lemma owner_first_remove1: "owner_first ts \<Longrightarrow> owner_first (remove1 t ts)"
  by (induction ts) (auto dest: notin_set_remove1)

lemma awaits_iff: "awaits p t = (t_wait t = AtExecuting p \<or> t_wait t = AtHandler p)"
  by (cases t; cases "t_wait t") auto

lemma Inv_init: "Inv init"
  by (simp add: Inv_def init_def wf_tasks_def wf_slots_def current_def waiting_def exec_ok_def
        slotInfo_def plain_tasks_def)

subsection \<open>Effect of the store updates\<close>

lemma slotInfo_upd [simp]:
  "slotInfo (w\<lparr>heap := hp\<rparr>) = slotInfo w"
  "slotInfo (w\<lparr>tasks := ts\<rparr>) = slotInfo w"
  "slotInfo (w\<lparr>promises := ps\<rparr>) = slotInfo w"
  "slotInfo (w\<lparr>calls := cs\<rparr>) = slotInfo w"
  "slotInfo (w\<lparr>rejected := rs\<rparr>) = slotInfo w"
  "slotInfo (w\<lparr>now := n\<rparr>) = slotInfo w"
  by (simp_all add: slotInfo_def fun_eq_iff)

lemma slotInfo_setSlot [simp]:
  "slotInfo (setSlot s si w) s' = (if s' = s then si else slotInfo w s')"
  by (simp add: slotInfo_def setSlot_def)

lemma slotInfo_set_cancel [simp]: "slotInfo (set_cancel c w) = slotInfo w"
  by (simp add: set_cancel_def)

lemma flag_upd [simp]:
  "flag (w\<lparr>tasks := ts\<rparr>) = flag w"
  "flag (w\<lparr>promises := ps\<rparr>) = flag w"
  "flag (w\<lparr>calls := cs\<rparr>) = flag w"
  "flag (w\<lparr>rejected := rs\<rparr>) = flag w"
  "flag (w\<lparr>now := n\<rparr>) = flag w"
  "flag (w\<lparr>MySlots := m\<rparr>) = flag w"
  by (simp_all add: flag_def fun_eq_iff)

lemma flag_setSlot [simp]: "flag (setSlot s si w) = flag w"
  by (simp add: setSlot_def)

lemma flag_set_cancel [simp]:
  "flag (set_cancel c w) c' = (flag w c' \<or> (c' = c \<and> c < length (heap w)))"
  by (cases "c < length (heap w)") (auto simp: flag_def set_cancel_def nth_list_update)

lemma fields_setSlot [simp]:
  "heap (setSlot s si w) = heap w" "tasks (setSlot s si w) = tasks w"
  "promises (setSlot s si w) = promises w" "calls (setSlot s si w) = calls w"
  "rejected (setSlot s si w) = rejected w" "now (setSlot s si w) = now w"
  "MySlots (setSlot s si w) = (MySlots w)(s \<mapsto> si)"
  by (simp_all add: setSlot_def)

lemma fields_set_cancel [simp]:
  "length (heap (set_cancel c w)) = length (heap w)" "tasks (set_cancel c w) = tasks w"
  "promises (set_cancel c w) = promises w" "calls (set_cancel c w) = calls w"
  "rejected (set_cancel c w) = rejected w" "now (set_cancel c w) = now w"
  "MySlots (set_cancel c w) = MySlots w"
  by (simp_all add: set_cancel_def)

subsection \<open>Effect of a handler invocation\<close>

lemma invoke_tasks:
  "plain h \<Longrightarrow>
   tasks (invoke s c h w) =
     tasks w @ (if h = Async then [Task s c h (AtHandler (length (promises w)))] else [])"
  by (cases h) (simp_all add: invoke.simps Let_def)

lemma invoke_promises:
  "plain h \<Longrightarrow>
   promises (invoke s c h w) = promises w @ (if h = Async then [Pending] else [])"
  by (cases h) (simp_all add: invoke.simps Let_def)

lemma invoke_flag:
  "plain h \<Longrightarrow>
   flag (invoke s c h w) c' = (flag w c' \<or> (h = Sync \<and> c' = c \<and> c < length (heap w)))"
  by (cases h) (simp_all add: invoke.simps Let_def)

lemma invoke_heap_length: "plain h \<Longrightarrow> length (heap (invoke s c h w)) = length (heap w)"
  by (cases h) (simp_all add: invoke.simps Let_def)

lemma invoke_slotInfo:
  "plain h \<Longrightarrow>
   slotInfo (invoke s c h w) s' =
     (if s' = s
      then (slotInfo w s)\<lparr>lastTriggered :=
              Some (max (nullish (lastTriggered (slotInfo w s)) (now w)) (now w)),
            executing := (if h = Async then Some (length (promises w)) else executing (slotInfo w s))\<rparr>
      else slotInfo w s')"
  by (cases h) (simp_all add: invoke.simps Let_def timeNow_def)

lemma invoke_dom: "plain h \<Longrightarrow> dom (MySlots (invoke s c h w)) = insert s (dom (MySlots w))"
  by (cases h) (simp_all add: invoke.simps Let_def)

subsection \<open>Suspending and invoking\<close>

lemma Inv_park_timer:
  assumes "Inv w" "admissible w s c" "plain h"
  shows "Inv (w\<lparr>tasks := tasks w @ [Task s c h (AtTimer d)]\<rparr>)"
  using assms unfolding Inv_def admissible_def
  by (auto simp: wf_tasks_def wf_slots_def current_def waiting_def exec_ok_def owner_first_snoc
        plain_tasks_def)

lemma Inv_park_executing:
  assumes "Inv w" "admissible w s c" "executing (slotInfo w s) = Some p"
    "p < length (promises w)" "promises w ! p = Pending" "plain h"
  shows "Inv (w\<lparr>tasks := tasks w @ [Task s c h (AtExecuting p)]\<rparr>)"
  using assms unfolding Inv_def admissible_def
  by (auto simp: wf_tasks_def wf_slots_def current_def waiting_def exec_ok_def owner_first_snoc
        plain_tasks_def)

lemma Inv_rejected: "Inv w \<Longrightarrow> Inv (w\<lparr>rejected := r\<rparr>)"
  unfolding Inv_def
  by (simp add: wf_tasks_def wf_slots_def current_def waiting_def exec_ok_def plain_tasks_def)

lemma Inv_invoke:
  assumes "Inv w" "admissible w s c" "executing (slotInfo w s) = None" "\<not> flag w c"
    and ph: "plain h"
  shows "Inv (invoke s c h w)"
proof -
  from assms have wf: "wf_tasks w" "wf_slots w" and d: "distinct (map t_context (tasks w))"
    and cur: "current w" and wt: "waiting w" and ow: "owner_first (tasks w)" and ex: "exec_ok w"
    and pt: "plain_tasks w"
    by (simp_all add: Inv_def)
  from assms(2) have c: "c < length (heap w)" "c \<notin> t_context ` set (tasks w)" "s \<in> dom (MySlots w)"
    by (simp_all add: admissible_def)
  from assms(2,4) have cs: "slot_context (slotInfo w s) = c" by (simp add: admissible_def)
  have nos: "\<And>t p. t \<in> set (tasks w) \<Longrightarrow> awaits p t \<Longrightarrow> t_slot t \<noteq> s"
    using wt assms(3) by (auto simp: waiting_def)
  note e = invoke_tasks [OF ph] invoke_heap_length [OF ph] invoke_dom [OF ph]
    invoke_slotInfo [OF ph] invoke_flag [OF ph] invoke_promises [OF ph]
  have 1: "wf_tasks (invoke s c h w)"
    using wf c by (auto simp: wf_tasks_def e)
  have 2: "wf_slots (invoke s c h w)"
    using wf c by (auto simp: wf_slots_def e)
  have 3: "distinct (map t_context (tasks (invoke s c h w)))"
    using d c by (auto simp: e)
  have 4: "current (invoke s c h w)"
    using cur cs by (auto simp: current_def e)
  have 5: "waiting (invoke s c h w)"
    using wt nos by (auto simp: waiting_def e nth_append intro: less_SucI)
  have 6: "owner_first (tasks (invoke s c h w))"
    using ow wt by (auto simp: e owner_first_snoc waiting_def)
  have 7: "exec_ok (invoke s c h w)"
    using ex assms(3) unfolding exec_ok_def e
    by (auto simp: nth_append intro: less_SucI)
  have 8: "plain_tasks (invoke s c h w)"
    using pt ph by (auto simp: plain_tasks_def e)
  show ?thesis using 1 2 3 4 5 6 7 8 by (simp add: Inv_def)
qed

lemma Inv_afterExecuting:
  assumes "Inv w" "admissible w s c" "executing (slotInfo w s) = None" "plain h"
  shows "Inv (afterExecuting s c h w)"
  using assms by (simp add: afterExecuting.simps Inv_invoke)

lemma Inv_afterTimer:
  assumes "Inv w" "admissible w s c" "plain h"
  shows "Inv (afterTimer s c h w)"
proof (cases "executing (slotInfo w s)")
  case None
  then show ?thesis using assms by (simp add: afterTimer.simps Inv_afterExecuting)
next
  case (Some p)
  with assms(1) have p: "p < length (promises w)" "promises w ! p \<noteq> Resolved"
    by (auto simp: Inv_def exec_ok_def)
  show ?thesis
  proof (cases "promises w ! p")
    case Pending
    then show ?thesis using assms Some p
      by (simp add: afterTimer.simps pstate_of_def Inv_park_executing)
  next
    case Resolved
    then show ?thesis using p by simp
  next
    case Rejected
    then show ?thesis using assms Some p
      by (simp add: afterTimer.simps pstate_of_def Inv_rejected)
  qed
qed

subsection \<open>Admission\<close>

lemma getOrCreate_old: "s \<in> dom (MySlots w) \<Longrightarrow> snd (getOrCreateSlotInfo s w) = w"
  by (auto simp: getOrCreateSlotInfo_def)

lemma getOrCreate_inherited:
  "s \<notin> dom (MySlots w) \<Longrightarrow> inherited s \<Longrightarrow> getOrCreateSlotInfo s w = (None, w)"
  by (auto simp: getOrCreateSlotInfo_def split: option.splits)

lemma getOrCreate_unusable: "\<not> usable w s \<Longrightarrow> getOrCreateSlotInfo s w = (None, w)"
  by (auto simp: getOrCreateSlotInfo_def usable_def)

lemma getOrCreate_new:
  "s \<notin> dom (MySlots w) \<Longrightarrow> \<not> inherited s \<Longrightarrow> snd (getOrCreateSlotInfo s w) =
     setSlot s \<lparr>slot_context = length (heap w), lastTriggered = None, executing = None\<rparr>
       (w\<lparr>heap := heap w @ [True]\<rparr>)"
  by (auto simp: getOrCreateSlotInfo_def setSlot_def Let_def split: option.splits)

lemma Inv_getOrCreate: "Inv w \<Longrightarrow> Inv (snd (getOrCreateSlotInfo s w))"
proof (cases "s \<in> dom (MySlots w) \<or> inherited s")
  case True
  then show "Inv w \<Longrightarrow> ?thesis"
    by (cases "s \<in> dom (MySlots w)") (simp_all add: getOrCreate_old getOrCreate_inherited)
next
  case False
  then have nd: "s \<notin> dom (MySlots w)" and ni': "\<not> inherited s" by simp_all
  assume "Inv w"
  then have "wf_tasks w" by (simp add: Inv_def)
  then have ns: "\<And>t. t \<in> set (tasks w) \<Longrightarrow> t_slot t \<noteq> s"
    using nd by (auto simp: wf_tasks_def)
  have ni: "slotInfo w s = \<lparr>slot_context = 0, lastTriggered = None, executing = None\<rparr>"
    using nd by (simp add: slotInfo_def domIff)
  show ?thesis
    using \<open>Inv w\<close> ns ni unfolding getOrCreate_new [OF nd ni'] Inv_def wf_tasks_def wf_slots_def
      current_def waiting_def exec_ok_def plain_tasks_def
    by (auto simp: flag_def nth_append intro: less_SucI)
qed

lemma getOrCreate_dom: "usable w s \<Longrightarrow> s \<in> dom (MySlots (snd (getOrCreateSlotInfo s w)))"
  by (auto simp: getOrCreateSlotInfo_def Let_def usable_def split: option.splits)

lemma getOrCreate_fst:
  "usable w s \<Longrightarrow>
   fst (getOrCreateSlotInfo s w) = Some (slotInfo (snd (getOrCreateSlotInfo s w)) s)"
  by (auto simp: getOrCreateSlotInfo_def Let_def slotInfo_def usable_def split: option.splits)

lemma Inv_alloc: "Inv w \<Longrightarrow> Inv (w\<lparr>heap := heap w @ [False]\<rparr>)"
  unfolding Inv_def wf_tasks_def wf_slots_def current_def waiting_def exec_ok_def plain_tasks_def
  by (auto simp: flag_def nth_append intro: less_SucI)

lemma Inv_set_cancel: "Inv w \<Longrightarrow> Inv (set_cancel c w)"
  unfolding Inv_def wf_tasks_def wf_slots_def current_def waiting_def exec_ok_def plain_tasks_def
  by auto

lemma Inv_install:
  assumes "Inv w" "s \<in> dom (MySlots w)" "flag w (slot_context (slotInfo w s))"
    "c < length (heap w)"
  shows "Inv (setSlot s ((slotInfo w s)\<lparr>slot_context := c\<rparr>) w)"
  using assms
  unfolding Inv_def wf_tasks_def wf_slots_def current_def waiting_def exec_ok_def plain_tasks_def
  by auto

lemma Inv_now: "Inv w \<Longrightarrow> Inv (w\<lparr>now := n\<rparr>)"
  unfolding Inv_def
  by (simp add: wf_tasks_def wf_slots_def current_def waiting_def exec_ok_def plain_tasks_def)

lemma Inv_cancel: "Inv w \<Longrightarrow> cancel s w = Inr w' \<Longrightarrow> Inv w'"
  using Inv_getOrCreate [of w s]
  by (auto simp: cancel_def split_def Let_def Inv_set_cancel split: option.splits)

lemma Inv_onCD: "Inv w \<Longrightarrow> Inv (snd (onCD s period w))"
  by (simp add: onCD_def split_def Let_def Inv_getOrCreate)

text \<open>A call of \<open>start\<close> with a name that cannot be used ends in the error of line 149 or 151.\<close>

lemma start_unusable:
  "\<not> usable w s \<Longrightarrow>
   start s mode period h w = w\<lparr>heap := heap w @ [False], rejected := rejected w @ [length (heap w)]\<rparr>"
  by (simp add: start.simps getOrCreate_unusable)

lemma Inv_start:
  assumes "Inv w" "plain h"
  shows "Inv (start s mode period h w)"
proof (cases "usable w s")
  case False
  have "Inv (w\<lparr>heap := heap w @ [False]\<rparr>)" using assms(1) by (rule Inv_alloc)
  from Inv_rejected [OF this] show ?thesis by (simp add: start_unusable [OF False])
next
  case u: True
  define w1 where "w1 = snd (getOrCreateSlotInfo s w)"
  define si where "si = slotInfo w1 s"
  define c where "c = length (heap w1)"
  define w2 where "w2 = w1\<lparr>heap := heap w1 @ [False]\<rparr>"
  define mp where "mp = effective mode period (Some si) w2"
  define w3 where "w3 = (if fst mp = Push then set_cancel (slot_context si) w2 else w2)"
  define w4 where "w4 = setSlot s ((slotInfo w3 s)\<lparr>slot_context := c\<rparr>) w3"
  have g: "getOrCreateSlotInfo s w = (Some si, w1)"
    using getOrCreate_fst [OF u] by (simp add: w1_def si_def prod_eq_iff)
  have st: "start s mode period h w =
      (if fst mp \<noteq> Push \<and> \<not> flag w2 (slot_context si) then w2
       else if snd mp \<noteq> 0
            then w4\<lparr>tasks := tasks w4 @
                    [Task s c h (AtTimer (timeNow w4 + setTimeout_delay (snd mp)))]\<rparr>
            else afterTimer s c h w4)"
    by (simp add: start.simps g split_def Let_def c_def w2_def mp_def w3_def w4_def)
  have I1: "Inv w1" using assms by (simp add: w1_def Inv_getOrCreate)
  have dom1: "s \<in> dom (MySlots w1)" using u by (simp add: w1_def getOrCreate_dom)
  have I2: "Inv w2" using I1 by (simp add: w2_def Inv_alloc)
  have dom2: "s \<in> dom (MySlots w2)" using dom1 by (simp add: w2_def)
  have fresh: "c \<notin> t_context ` set (tasks w2)"
    using I1 by (auto simp: Inv_def wf_tasks_def c_def w2_def)
  have nf: "\<not> flag w2 c" by (simp add: flag_def w2_def c_def)
  have clt: "c < length (heap w2)" by (simp add: w2_def c_def)
  have "slot_context si < length (heap w1)"
    using I1 dom1 unfolding Inv_def wf_slots_def si_def by blast
  then have sictx: "slot_context si < length (heap w2)" "slot_context si \<noteq> c"
    by (simp_all add: w2_def c_def)
  show ?thesis
  proof (cases "fst mp \<noteq> Push \<and> \<not> flag w2 (slot_context si)")
    case True
    then show ?thesis using I2 by (simp add: st)
  next
    case False
    have I3: "Inv w3" using I2 by (simp add: w3_def Inv_set_cancel)
    have f3: "flag w3 (slot_context (slotInfo w3 s))"
      using False sictx by (auto simp: w3_def si_def w2_def)
    have I4: "Inv w4" unfolding w4_def
      by (rule Inv_install [OF I3]) (use dom2 f3 clt in \<open>auto simp: w3_def\<close>)
    have adm: "admissible w4 s c"
      using fresh clt dom2 by (auto simp: admissible_def w4_def w3_def)
    show ?thesis using False I4 adm assms(2)
      by (auto simp: st Inv_park_timer Inv_afterTimer)
  qed
qed

subsection \<open>Timers\<close>

lemma distinct_map_remove1: "distinct (map f xs) \<Longrightarrow> distinct (map f (remove1 x xs))"
  by (induction xs) (auto dest: set_remove1_subset [THEN subsetD])

lemma afterTimer_tasks_mono: "plain h \<Longrightarrow> set (tasks w) \<subseteq> set (tasks (afterTimer s c h w))"
  by (auto simp: afterTimer.simps afterExecuting.simps invoke_tasks split: option.splits pstate.splits)

lemma Inv_fire:
  assumes "Inv w" "t \<in> set (tasks w)" "is_timer t"
  shows "Inv (fire t w)"
proof -
  let ?w = "w\<lparr>now := max (now w) (due_of t), tasks := remove1 t (tasks w)\<rparr>"
  from assms(1) have d: "distinct (map t_context (tasks w))" by (simp add: Inv_def)
  then have dt: "distinct (tasks w)" by (rule distinct_map [THEN iffD1, THEN conjunct1])
  from assms(3) have na: "\<And>p. t_wait t \<noteq> AtHandler p" "\<And>p. \<not> awaits p t"
    by (cases t; cases "t_wait t"; simp)+
  have ex: "exec_ok ?w"
    unfolding exec_ok_def
  proof (intro allI impI)
    fix s p assume e: "executing (slotInfo ?w s) = Some p"
    with assms(1) have p: "p < length (promises w)" "promises w ! p \<noteq> Resolved"
      and o: "promises w ! p = Pending \<Longrightarrow> \<exists>u\<in>set (tasks w). t_slot u = s \<and> t_wait u = AtHandler p"
      by (auto simp: Inv_def exec_ok_def)
    have "promises w ! p = Pending \<Longrightarrow> \<exists>u\<in>set (tasks ?w). t_slot u = s \<and> t_wait u = AtHandler p"
    proof -
      assume "promises w ! p = Pending"
      from o [OF this] obtain u where u: "u \<in> set (tasks w)" "t_slot u = s" "t_wait u = AtHandler p"
        by blast
      with na(1) have "u \<noteq> t" by auto
      with u show ?thesis by (auto simp: dt)
    qed
    with p show "p < length (promises ?w) \<and> promises ?w ! p \<noteq> Resolved \<and>
       (promises ?w ! p = Pending \<longrightarrow> (\<exists>t\<in>set (tasks ?w). t_slot t = s \<and> t_wait t = AtHandler p))"
      by simp
  qed
  have I: "Inv ?w"
    using assms(1) ex
    unfolding Inv_def wf_tasks_def wf_slots_def current_def waiting_def plain_tasks_def
    by (auto simp: distinct_map_remove1 owner_first_remove1 dt)
  have pt: "plain (t_handler t)"
    using assms(1,2) by (simp add: Inv_def plain_tasks_def)
  have "t_context t \<notin> t_context ` set (remove1 t (tasks w))"
    using d dt assms(2) by (auto simp: distinct_map inj_on_def)
  then have adm: "admissible ?w (t_slot t) (t_context t)"
    using assms(1,2) unfolding Inv_def wf_tasks_def current_def admissible_def by auto
  show ?thesis unfolding fire_def by (rule Inv_afterTimer [OF I adm pt])
qed

lemma fire_keeps:
  "plain (t_handler t) \<Longrightarrow> u \<in> set (tasks w) \<Longrightarrow> u \<noteq> t \<Longrightarrow> u \<in> set (tasks (fire t w))"
  unfolding fire_def using afterTimer_tasks_mono by (fastforce)

lemma Inv_fire_all:
  "Inv w \<Longrightarrow> set ts \<subseteq> set (tasks w) \<Longrightarrow> distinct ts \<Longrightarrow> \<forall>t\<in>set ts. is_timer t \<Longrightarrow>
   Inv (foldl (\<lambda>w t. fire t w) w ts)"
proof (induction ts arbitrary: w)
  case Nil
  then show ?case by simp
next
  case (Cons t ts)
  have "Inv (fire t w)" using Cons.prems by (simp add: Inv_fire)
  moreover have "plain (t_handler t)"
    using Cons.prems(1,2) by (simp add: Inv_def plain_tasks_def)
  then have "set ts \<subseteq> set (tasks (fire t w))"
    using Cons.prems by (auto intro: fire_keeps)
  ultimately show ?case using Cons.prems by (simp add: Cons.IH)
qed

lemma Inv_advance: "Inv w \<Longrightarrow> Inv (advance d w)"
  unfolding advance_def Let_def
  apply (rule Inv_now)
  apply (rule Inv_fire_all)
     apply (auto simp: Inv_def distinct_map)
  done

subsection \<open>Settling a promise\<close>

lemma waiters_shape:
  assumes "Inv w" "p < length (promises w)" "promises w ! p = Pending"
    "filter (awaits p) (tasks w) = a # bs"
  shows "t_wait a = AtHandler p \<and> (\<forall>b\<in>set bs. t_wait b = AtExecuting p \<and> t_slot b = t_slot a)"
proof -
  from assms(1) have wt: "waiting w" and ow: "owner_first (tasks w)" and ex: "exec_ok w"
    by (simp_all add: Inv_def)
  have mem: "\<And>u. u \<in> set (a # bs) \<longleftrightarrow> u \<in> set (tasks w) \<and> awaits p u"
    unfolding assms(4) [symmetric] by simp
  have "owner_first (a # bs)"
    unfolding assms(4) [symmetric] by (rule owner_first_filter [OF ow])
  moreover have ap: "awaits p a" using mem [of a] by simp
  ultimately have nb: "\<And>u. u \<in> set bs \<Longrightarrow> t_wait u \<noteq> AtHandler p" by auto
  have owner: "\<And>u. u \<in> set (a # bs) \<Longrightarrow> \<exists>t\<in>set (a # bs). t_slot t = t_slot u \<and> t_wait t = AtHandler p"
  proof -
    fix u assume u: "u \<in> set (a # bs)"
    then have "u \<in> set (tasks w)" "awaits p u" using mem by auto
    with wt have "executing (slotInfo w (t_slot u)) = Some p" by (auto simp: waiting_def)
    with ex assms(3) obtain t where "t \<in> set (tasks w)" "t_slot t = t_slot u" "t_wait t = AtHandler p"
      unfolding exec_ok_def by blast
    moreover then have "awaits p t" by (simp add: awaits_iff)
    ultimately show "\<exists>t\<in>set (a # bs). t_slot t = t_slot u \<and> t_wait t = AtHandler p"
      using mem by blast
  qed
  have own: "\<And>u. u \<in> set (a # bs) \<Longrightarrow> t_slot a = t_slot u \<and> t_wait a = AtHandler p"
    using owner nb by (metis set_ConsD)
  have "t_wait a = AtHandler p" using own [of a] by simp
  moreover have "\<forall>b\<in>set bs. t_wait b = AtExecuting p \<and> t_slot b = t_slot a"
  proof
    fix b assume b: "b \<in> set bs"
    then have "awaits p b" using mem [of b] by simp
    with nb [OF b] have "t_wait b = AtExecuting p" by (simp add: awaits_iff)
    moreover have "t_slot b = t_slot a" using own [of b] b by simp
    ultimately show "t_wait b = AtExecuting p \<and> t_slot b = t_slot a" by simp
  qed
  ultimately show ?thesis by simp
qed

lemma no_waiters_no_executing:
  assumes "Inv w" "promises w ! p = Pending" "filter (awaits p) (tasks w) = []"
  shows "executing (slotInfo w s) \<noteq> Some p"
proof
  assume "executing (slotInfo w s) = Some p"
  with assms(1,2) obtain t where "t \<in> set (tasks w)" "t_wait t = AtHandler p"
    unfolding Inv_def exec_ok_def by blast
  then have "t \<in> set (filter (awaits p) (tasks w))" by (simp add: awaits_iff)
  with assms(3) show False by simp
qed

lemma foldl_reject:
  "foldl (\<lambda>w t. resume False t w) w ts = w\<lparr>rejected := rejected w @ map t_context ts\<rparr>"
  by (induction ts arbitrary: w) (simp_all add: resume_def)

lemma Inv_settle_reject:
  assumes "Inv w" "p < length (promises w)" "promises w ! p = Pending"
  shows "Inv (settle p False w)"
proof -
  let ?w = "w\<lparr>promises := (promises w)[p := Rejected], tasks := filter (\<lambda>t. \<not> awaits p t) (tasks w)\<rparr>"
  have ex: "exec_ok ?w"
    unfolding exec_ok_def
  proof (intro allI impI)
    fix s q assume e: "executing (slotInfo ?w s) = Some q"
    with assms(1) have q: "q < length (promises w)" "promises w ! q \<noteq> Resolved"
      and o: "promises w ! q = Pending \<Longrightarrow> \<exists>u\<in>set (tasks w). t_slot u = s \<and> t_wait u = AtHandler q"
      by (auto simp: Inv_def exec_ok_def)
    have "promises ?w ! q = Pending \<Longrightarrow> \<exists>u\<in>set (tasks ?w). t_slot u = s \<and> t_wait u = AtHandler q"
    proof -
      assume pq: "promises ?w ! q = Pending"
      then have ne: "q \<noteq> p" using assms(2) by auto
      then have "promises w ! q = Pending" using pq by simp
      from o [OF this] obtain u where u: "u \<in> set (tasks w)" "t_slot u = s" "t_wait u = AtHandler q"
        by blast
      with ne have "\<not> awaits p u" by (simp add: awaits_iff)
      with u show ?thesis by auto
    qed
    with q show "q < length (promises ?w) \<and> promises ?w ! q \<noteq> Resolved \<and>
       (promises ?w ! q = Pending \<longrightarrow> (\<exists>t\<in>set (tasks ?w). t_slot t = s \<and> t_wait t = AtHandler q))"
      by (cases "q = p") simp_all
  qed
  have wt: "waiting ?w"
    unfolding waiting_def
  proof (intro ballI allI impI)
    fix t q assume t: "t \<in> set (tasks ?w)" and a: "awaits q t"
    then have "q \<noteq> p" "t \<in> set (tasks w)" by auto
    with a assms(1) show "q < length (promises ?w) \<and> promises ?w ! q = Pending \<and>
        executing (slotInfo ?w (t_slot t)) = Some q"
      unfolding Inv_def waiting_def by simp
  qed
  have I: "Inv ?w"
    using assms(1) ex wt unfolding Inv_def wf_tasks_def wf_slots_def current_def plain_tasks_def
    by (auto simp: distinct_map_filter owner_first_filter)
  show ?thesis using assms(2,3) Inv_rejected [OF I]
    by (simp add: settle_def Let_def foldl_reject)
qed

lemma Inv_resume_waiters:
  "Inv w \<Longrightarrow> distinct (map t_context bs) \<Longrightarrow> s \<in> dom (MySlots w) \<Longrightarrow>
   \<forall>b\<in>set bs. t_slot b = s \<and> t_context b < length (heap w) \<and>
      t_context b \<notin> t_context ` set (tasks w) \<and>
      (\<not> flag w (t_context b) \<longrightarrow> slot_context (slotInfo w s) = t_context b) \<Longrightarrow>
   executing (slotInfo w s) = None \<or> (\<forall>b\<in>set bs. flag w (t_context b)) \<Longrightarrow>
   \<forall>b\<in>set bs. plain (t_handler b) \<Longrightarrow>
   Inv (foldl (\<lambda>w t. afterExecuting (t_slot t) (t_context t) (t_handler t) w) w bs)"
proof (induction bs arbitrary: w)
  case Nil
  then show ?case by simp
next
  case (Cons b bs)
  show ?case
  proof (cases "flag w (t_context b)")
    case True
    then have "afterExecuting (t_slot b) (t_context b) (t_handler b) w = w"
      by (simp add: afterExecuting.simps)
    moreover have "Inv (foldl (\<lambda>w t. afterExecuting (t_slot t) (t_context t) (t_handler t) w) w bs)"
    proof (rule Cons.IH [OF Cons.prems(1)])
      show "distinct (map t_context bs)" using Cons.prems(2) by simp
      show "s \<in> dom (MySlots w)" by (rule Cons.prems(3))
      show "\<forall>b\<in>set bs. t_slot b = s \<and> t_context b < length (heap w) \<and>
          t_context b \<notin> t_context ` set (tasks w) \<and>
          (\<not> flag w (t_context b) \<longrightarrow> slot_context (slotInfo w s) = t_context b)"
        using Cons.prems(4) by simp
      show "executing (slotInfo w s) = None \<or> (\<forall>b\<in>set bs. flag w (t_context b))"
        using Cons.prems(5) by auto
      show "\<forall>b\<in>set bs. plain (t_handler b)" using Cons.prems(6) by simp
    qed
    ultimately show ?thesis by simp
  next
    case False
    let ?w = "invoke s (t_context b) (t_handler b) w"
    from False Cons.prems have E: "executing (slotInfo w s) = None" by auto
    from False Cons.prems have C: "slot_context (slotInfo w s) = t_context b" by auto
    have st: "afterExecuting (t_slot b) (t_context b) (t_handler b) w = ?w"
      using False Cons.prems by (simp add: afterExecuting.simps)
    have adm: "admissible w s (t_context b)"
      using Cons.prems by (simp add: admissible_def)
    have pb: "plain (t_handler b)" using Cons.prems(6) by simp
    have I: "Inv ?w" by (rule Inv_invoke [OF Cons.prems(1) adm E False pb])
    have ne: "\<forall>u\<in>set bs. t_context u \<noteq> t_context b"
    proof
      fix u assume u: "u \<in> set bs"
      then have "t_context u \<in> t_context ` set bs" by (rule imageI)
      with Cons.prems(2) show "t_context u \<noteq> t_context b" by auto
    qed
    have fl: "\<forall>u\<in>set bs. flag w (t_context u)"
    proof
      fix u assume u: "u \<in> set bs"
      with ne have "t_context u \<noteq> slot_context (slotInfo w s)" by (simp add: C)
      moreover from u Cons.prems(4)
      have "\<not> flag w (t_context u) \<longrightarrow> slot_context (slotInfo w s) = t_context u" by simp
      ultimately show "flag w (t_context u)" by auto
    qed
    have "Inv (foldl (\<lambda>w t. afterExecuting (t_slot t) (t_context t) (t_handler t) w) ?w bs)"
    proof (rule Cons.IH [OF I])
      show "distinct (map t_context bs)" using Cons.prems(2) by simp
      show "s \<in> dom (MySlots ?w)" using pb by (simp add: invoke_dom)
      show "\<forall>b\<in>set bs. t_slot b = s \<and> t_context b < length (heap ?w) \<and>
          t_context b \<notin> t_context ` set (tasks ?w) \<and>
          (\<not> flag ?w (t_context b) \<longrightarrow> slot_context (slotInfo ?w s) = t_context b)"
        using Cons.prems(4) fl ne pb
        by (auto simp: invoke_heap_length invoke_tasks invoke_flag)
      show "executing (slotInfo ?w s) = None \<or> (\<forall>b\<in>set bs. flag ?w (t_context b))"
        using fl pb by (simp add: invoke_flag)
      show "\<forall>b\<in>set bs. plain (t_handler b)" using Cons.prems(6) by simp
    qed
    then show ?thesis by (simp add: st)
  qed
qed

lemma foldl_resume_executing:
  "\<forall>b\<in>set bs. t_wait b = AtExecuting p \<Longrightarrow>
   foldl (\<lambda>w t. resume True t w) w bs =
   foldl (\<lambda>w t. afterExecuting (t_slot t) (t_context t) (t_handler t) w) w bs"
  by (induction bs arbitrary: w) (simp_all add: resume_def)

lemma Inv_settle_resolve:
  assumes "Inv w" "p < length (promises w)" "promises w ! p = Pending"
  shows "Inv (settle p True w)"
proof -
  let ?w = "w\<lparr>promises := (promises w)[p := Resolved], tasks := filter (\<lambda>t. \<not> awaits p t) (tasks w)\<rparr>"
  from assms(1) have wf: "wf_tasks w" "wf_slots w" and d: "distinct (map t_context (tasks w))"
    and cur: "current w" and wt: "waiting w" and ow: "owner_first (tasks w)" and ex: "exec_ok w"
    and pl: "plain_tasks w"
    by (simp_all add: Inv_def)
  have st: "settle p True w = foldl (\<lambda>w t. resume True t w) ?w (filter (awaits p) (tasks w))"
    using assms(2,3) by (simp add: settle_def Let_def)
  have wt': "waiting ?w"
    unfolding waiting_def
  proof (intro ballI allI impI)
    fix t q assume t: "t \<in> set (tasks ?w)" and a: "awaits q t"
    then have "q \<noteq> p" "t \<in> set (tasks w)" by auto
    with a wt show "q < length (promises ?w) \<and> promises ?w ! q = Pending \<and>
        executing (slotInfo ?w (t_slot t)) = Some q"
      unfolding waiting_def by simp
  qed
  have ex': "\<And>s q. executing (slotInfo w s) = Some q \<Longrightarrow> q \<noteq> p \<Longrightarrow>
       q < length (promises ?w) \<and> promises ?w ! q \<noteq> Resolved \<and>
       (promises ?w ! q = Pending \<longrightarrow> (\<exists>t\<in>set (tasks ?w). t_slot t = s \<and> t_wait t = AtHandler q))"
  proof -
    fix s q assume e: "executing (slotInfo w s) = Some q" and ne: "q \<noteq> p"
    with ex have q: "q < length (promises w)" "promises w ! q \<noteq> Resolved"
      and o: "promises w ! q = Pending \<Longrightarrow> \<exists>u\<in>set (tasks w). t_slot u = s \<and> t_wait u = AtHandler q"
      by (auto simp: exec_ok_def)
    have "promises w ! q = Pending \<Longrightarrow> \<exists>u\<in>set (tasks ?w). t_slot u = s \<and> t_wait u = AtHandler q"
    proof -
      assume "promises w ! q = Pending"
      from o [OF this] obtain u where u: "u \<in> set (tasks w)" "t_slot u = s" "t_wait u = AtHandler q"
        by blast
      with ne have "\<not> awaits p u" by (simp add: awaits_iff)
      with u show ?thesis by auto
    qed
    with q ne show "q < length (promises ?w) \<and> promises ?w ! q \<noteq> Resolved \<and>
       (promises ?w ! q = Pending \<longrightarrow> (\<exists>t\<in>set (tasks ?w). t_slot t = s \<and> t_wait t = AtHandler q))"
      by simp
  qed
  show ?thesis
  proof (cases "filter (awaits p) (tasks w)")
    case Nil
    have "exec_ok ?w"
      unfolding exec_ok_def
    proof (intro allI impI)
      fix s q assume "executing (slotInfo ?w s) = Some q"
      then have e: "executing (slotInfo w s) = Some q" by simp
      with no_waiters_no_executing [OF assms(1,3) Nil, of s] have "q \<noteq> p" by auto
      from ex' [OF e this]
      show "q < length (promises ?w) \<and> promises ?w ! q \<noteq> Resolved \<and>
       (promises ?w ! q = Pending \<longrightarrow> (\<exists>t\<in>set (tasks ?w). t_slot t = s \<and> t_wait t = AtHandler q))" .
    qed
    moreover have "wf_tasks ?w" using wf(1) by (auto simp: wf_tasks_def)
    moreover have "wf_slots ?w" using wf(2) by (auto simp: wf_slots_def)
    moreover have "distinct (map t_context (tasks ?w))" using d by (simp add: distinct_map_filter)
    moreover have "current ?w" using cur by (auto simp: current_def)
    moreover have "owner_first (tasks ?w)" using ow by (simp add: owner_first_filter)
    moreover have "plain_tasks ?w" using pl by (simp add: plain_tasks_def)
    ultimately have "Inv ?w" using wt' unfolding Inv_def by blast
    then show ?thesis by (simp add: st Nil)
  next
    case (Cons a bs)
    note sh = waiters_shape [OF assms Cons]
    define s where "s = t_slot a"
    have mem: "\<And>u. u \<in> set (a # bs) \<longleftrightarrow> u \<in> set (tasks w) \<and> awaits p u"
      unfolding Cons [symmetric] by simp
    have a: "a \<in> set (tasks w)" "awaits p a" using mem [of a] by simp_all
    have es: "executing (slotInfo w s) = Some p" using a wt by (simp add: waiting_def s_def)
    have sdom: "s \<in> dom (MySlots w)" using a wf by (simp add: wf_tasks_def s_def)
    let ?v = "afterHandler s (t_context a) ?w"
    have nos: "\<And>t. t \<in> set (tasks ?w) \<Longrightarrow> t_slot t = s \<Longrightarrow> \<not> awaits q t" for q
    proof
      fix t assume t: "t \<in> set (tasks ?w)" "t_slot t = s" "awaits q t"
      then have "executing (slotInfo w s) = Some q" using wt by (auto simp: waiting_def)
      with es have "q = p" by simp
      with t show False by simp
    qed
    have exv: "exec_ok ?v"
      unfolding exec_ok_def
    proof (intro allI impI)
      fix s' q assume e: "executing (slotInfo ?v s') = Some q"
      then have ne: "s' \<noteq> s" and e': "executing (slotInfo w s') = Some q"
        by (auto simp: afterHandler_def split: if_splits)
      have "q \<noteq> p"
      proof
        assume "q = p"
        with e' ex assms(3) obtain t where t: "t \<in> set (tasks w)" "t_slot t = s'" "t_wait t = AtHandler p"
          unfolding exec_ok_def by blast
        then have "t \<in> set (a # bs)" using mem by (simp add: awaits_iff)
        with sh t(3) have "t = a" by auto
        with t(2) ne show False by (simp add: s_def)
      qed
      from ex' [OF e' this]
      show "q < length (promises ?v) \<and> promises ?v ! q \<noteq> Resolved \<and>
         (promises ?v ! q = Pending \<longrightarrow> (\<exists>t\<in>set (tasks ?v). t_slot t = s' \<and> t_wait t = AtHandler q))"
        by (simp add: afterHandler_def)
    qed
    have wtv: "waiting ?v"
      unfolding waiting_def
    proof (intro ballI allI impI)
      fix t q assume t: "t \<in> set (tasks ?v)" and aw: "awaits q t"
      then have t': "t \<in> set (tasks ?w)" by (simp add: afterHandler_def)
      with nos aw have "t_slot t \<noteq> s" by blast
      with wt' t' aw show "q < length (promises ?v) \<and> promises ?v ! q = Pending \<and>
          executing (slotInfo ?v (t_slot t)) = Some q"
        unfolding waiting_def by (simp add: afterHandler_def)
    qed
    have v1: "wf_tasks ?v" using wf(1) by (auto simp: wf_tasks_def afterHandler_def)
    have v2: "wf_slots ?v" using wf(2) sdom by (auto simp: wf_slots_def afterHandler_def)
    have v3: "distinct (map t_context (tasks ?v))"
      using d by (simp add: afterHandler_def distinct_map_filter)
    have v4: "current ?v" using cur by (auto simp: current_def afterHandler_def)
    have v6: "owner_first (tasks ?v)" using ow by (simp add: afterHandler_def owner_first_filter)
    have v8: "plain_tasks ?v" using pl by (simp add: plain_tasks_def afterHandler_def)
    have Iv: "Inv ?v"
      using v1 v2 v3 v4 wtv v6 exv v8 unfolding Inv_def by blast
    have dab: "distinct (map t_context (a # bs))"
      unfolding Cons [symmetric] using d by (rule distinct_map_filter)
    have fresh: "\<And>b. b \<in> set bs \<Longrightarrow> t_context b \<notin> t_context ` set (tasks ?v)"
    proof
      fix b assume b: "b \<in> set bs" and "t_context b \<in> t_context ` set (tasks ?v)"
      then obtain t where t: "t \<in> set (tasks w)" "\<not> awaits p t" "t_context t = t_context b"
        by (auto simp: afterHandler_def)
      from b have "b \<in> set (tasks w)" "awaits p b" using mem [of b] by simp_all
      with t d show False by (auto simp: distinct_map inj_on_def)
    qed
    have "Inv (foldl (\<lambda>w t. afterExecuting (t_slot t) (t_context t) (t_handler t) w) ?v bs)"
    proof (rule Inv_resume_waiters [OF Iv, where s = s])
      show "distinct (map t_context bs)" using dab by simp
      show "s \<in> dom (MySlots ?v)" using sdom by (simp add: afterHandler_def)
      show "\<forall>b\<in>set bs. t_slot b = s \<and> t_context b < length (heap ?v) \<and>
          t_context b \<notin> t_context ` set (tasks ?v) \<and>
          (\<not> flag ?v (t_context b) \<longrightarrow> slot_context (slotInfo ?v s) = t_context b)"
      proof
        fix b assume b: "b \<in> set bs"
        then have bt: "b \<in> set (tasks w)" using mem [of b] by simp
        from b sh have "t_slot b = s" by (simp add: s_def)
        moreover have "t_context b < length (heap ?v)"
          using bt wf by (simp add: wf_tasks_def afterHandler_def)
        moreover have "\<not> flag ?v (t_context b) \<longrightarrow> slot_context (slotInfo ?v s) = t_context b"
          using bt cur \<open>t_slot b = s\<close> by (auto simp: current_def afterHandler_def)
        ultimately show "t_slot b = s \<and> t_context b < length (heap ?v) \<and>
          t_context b \<notin> t_context ` set (tasks ?v) \<and>
          (\<not> flag ?v (t_context b) \<longrightarrow> slot_context (slotInfo ?v s) = t_context b)"
          using fresh [OF b] by simp
      qed
      show "executing (slotInfo ?v s) = None \<or> (\<forall>b\<in>set bs. flag ?v (t_context b))"
        by (simp add: afterHandler_def)
      show "\<forall>b\<in>set bs. plain (t_handler b)"
      proof
        fix b assume "b \<in> set bs"
        then have "b \<in> set (tasks w)" using mem [of b] by simp
        with pl show "plain (t_handler b)" by (simp add: plain_tasks_def)
      qed
    qed
    moreover have "resume True a ?w = ?v"
      using sh by (simp add: resume_def s_def)
    ultimately show ?thesis
      using sh by (simp add: st Cons foldl_resume_executing [where p = p])
  qed
qed

lemma Inv_settle: "Inv w \<Longrightarrow> Inv (settle p ok w)"
  by (cases "p < length (promises w) \<and> promises w ! p = Pending"; cases ok)
     (auto simp: Inv_settle_resolve Inv_settle_reject, simp_all add: settle_def)

lemma Inv_step_cancel: "Inv w \<Longrightarrow> Inv (step (Cancel s) w)"
  by (cases "cancel s w") (simp_all add: Inv_cancel)

lemma Inv_step: "Inv w \<Longrightarrow> plain_event e \<Longrightarrow> Inv (step e w)"
  by (cases e)
     (simp_all add: Inv_start Inv_step_cancel Inv_onCD Inv_advance Inv_settle del: step.simps(2))

lemma Inv_run: "Inv w \<Longrightarrow> \<forall>e\<in>set evs. plain_event e \<Longrightarrow> Inv (run evs w)"
  unfolding run_def by (induction evs arbitrary: w) (simp_all add: Inv_step)

section \<open>What one slot sees of the others\<close>

subsection \<open>Promise states\<close>

lemma pstate_of_upd [simp]:
  "pstate_of (w\<lparr>heap := hp\<rparr>) = pstate_of w"
  "pstate_of (w\<lparr>tasks := ts\<rparr>) = pstate_of w"
  "pstate_of (w\<lparr>calls := cs\<rparr>) = pstate_of w"
  "pstate_of (w\<lparr>rejected := rs\<rparr>) = pstate_of w"
  "pstate_of (w\<lparr>now := n\<rparr>) = pstate_of w"
  "pstate_of (w\<lparr>MySlots := m\<rparr>) = pstate_of w"
  by (simp_all add: pstate_of_def fun_eq_iff)

lemma pstate_of_setSlot [simp]: "pstate_of (setSlot s si w) = pstate_of w"
  by (simp add: setSlot_def)

lemma pstate_of_set_cancel [simp]: "pstate_of (set_cancel c w) = pstate_of w"
  by (simp add: set_cancel_def)

lemma invoke_calls: "plain h \<Longrightarrow> calls (invoke s c h w) = calls w @ [(s, c, now w)]"
  by (cases h) (simp_all add: invoke.simps Let_def timeNow_def)

lemma invoke_now: "plain h \<Longrightarrow> now (invoke s c h w) = now w"
  by (cases h) (simp_all add: invoke.simps Let_def)

lemma invoke_rejected:
  "plain h \<Longrightarrow> rejected (invoke s c h w) = rejected w @ (if h = Throwing then [c] else [])"
  by (cases h) (simp_all add: invoke.simps Let_def)

lemma pstate_of_snoc: "pstate_of w p \<noteq> Resolved \<Longrightarrow> pstate_of (w\<lparr>promises := promises w @ [Pending]\<rparr>) p \<noteq> Resolved"
  by (auto simp: pstate_of_def nth_append)

lemma invoke_pstate:
  "plain h \<Longrightarrow> pstate_of w p \<noteq> Resolved \<Longrightarrow> pstate_of (invoke s c h w) p \<noteq> Resolved"
  by (auto simp: pstate_of_def invoke_promises nth_append)

lemma invoke_pstate_Pending:
  "plain h \<Longrightarrow> pstate_of w p = Pending \<Longrightarrow> pstate_of (invoke s c h w) p = Pending"
  by (auto simp: pstate_of_def invoke_promises nth_append split: if_splits)

subsection \<open>A timer that fires on another slot, or on a busy slot\<close>

lemma afterTimer_flagged: "flag w c \<Longrightarrow> afterTimer s c h w = w"
  by (simp add: afterTimer.simps)

lemma afterTimer_calls_other: "plain h \<Longrightarrow> s' \<noteq> s \<Longrightarrow> calls_on s (afterTimer s' c h w) = calls_on s w"
  by (auto simp: afterTimer.simps afterExecuting.simps calls_on_def invoke_calls
      split: option.splits pstate.splits)

lemma afterTimer_slotInfo_other: "plain h \<Longrightarrow> s' \<noteq> s \<Longrightarrow> slotInfo (afterTimer s' c h w) s = slotInfo w s"
  by (auto simp: afterTimer.simps afterExecuting.simps invoke_slotInfo
      split: option.splits pstate.splits)

lemma afterTimer_busy_calls: "busy w s \<Longrightarrow> calls (afterTimer s c h w) = calls w"
  by (auto simp: afterTimer.simps busy_def split: option.splits pstate.splits)

lemma afterTimer_busy_slotInfo: "busy w s \<Longrightarrow> slotInfo (afterTimer s c h w) = slotInfo w"
  by (auto simp: afterTimer.simps busy_def split: option.splits pstate.splits)

lemma afterTimer_pstate:
  "plain h \<Longrightarrow> pstate_of w p \<noteq> Resolved \<Longrightarrow> pstate_of (afterTimer s c h w) p \<noteq> Resolved"
  by (auto simp: afterTimer.simps afterExecuting.simps invoke_pstate
      split: option.splits pstate.splits)

lemma afterTimer_flag_mono: "plain h \<Longrightarrow> flag w c' \<Longrightarrow> flag (afterTimer s c h w) c'"
  by (auto simp: afterTimer.simps afterExecuting.simps invoke_flag split: option.splits pstate.splits)

lemma afterTimer_flag_other: "plain h \<Longrightarrow> c' \<noteq> c \<Longrightarrow> flag (afterTimer s c h w) c' = flag w c'"
  by (auto simp: afterTimer.simps afterExecuting.simps invoke_flag split: option.splits pstate.splits)

lemma afterTimer_now: "plain h \<Longrightarrow> now (afterTimer s c h w) = now w"
  by (auto simp: afterTimer.simps afterExecuting.simps invoke_now split: option.splits pstate.splits)

lemma fire_quiet:
  assumes "quiet w s t" "plain (t_handler t)"
  shows "calls_on s (fire t w) = calls_on s w" "slotInfo (fire t w) s = slotInfo w s"
proof -
  let ?w = "w\<lparr>now := max (now w) (due_of t), tasks := remove1 t (tasks w)\<rparr>"
  have b: "busy ?w s = busy w s" by (simp add: busy_def split: option.splits)
  show "calls_on s (fire t w) = calls_on s w"
  proof (cases "t_slot t = s")
    case True
    with assms b show ?thesis
      by (auto simp: quiet_def fire_def afterTimer_flagged afterTimer_busy_calls calls_on_def)
  next
    case False
    then show ?thesis using assms(2)
      by (simp add: fire_def afterTimer_calls_other) (simp add: calls_on_def)
  qed
  show "slotInfo (fire t w) s = slotInfo w s"
  proof (cases "t_slot t = s")
    case True
    with assms b show ?thesis
      by (auto simp: quiet_def fire_def afterTimer_flagged afterTimer_busy_slotInfo)
  next
    case False
    then show ?thesis using assms(2) by (simp add: fire_def afterTimer_slotInfo_other)
  qed
qed

lemma fire_flag_mono: "plain (t_handler t) \<Longrightarrow> flag w c \<Longrightarrow> flag (fire t w) c"
  by (simp add: fire_def afterTimer_flag_mono)

lemma fire_flag_other: "plain (t_handler t) \<Longrightarrow> c \<noteq> t_context t \<Longrightarrow> flag (fire t w) c = flag w c"
  by (simp add: fire_def afterTimer_flag_other)

lemma fire_pstate:
  "plain (t_handler t) \<Longrightarrow> pstate_of w p \<noteq> Resolved \<Longrightarrow> pstate_of (fire t w) p \<noteq> Resolved"
  unfolding fire_def by (rule afterTimer_pstate) simp_all

lemma fire_busy: "quiet w s t \<Longrightarrow> plain (t_handler t) \<Longrightarrow> busy w s \<Longrightarrow> busy (fire t w) s"
  using fire_pstate by (auto simp: busy_def fire_quiet split: option.splits)

lemma fire_quiet_preserved:
  "quiet w s t \<Longrightarrow> plain (t_handler t) \<Longrightarrow> quiet w s u \<Longrightarrow> quiet (fire t w) s u"
  using fire_busy fire_flag_mono by (auto simp: quiet_def)

lemma fire_all_quiet:
  "\<forall>t\<in>set ts. quiet w s t \<Longrightarrow> \<forall>t\<in>set ts. plain (t_handler t) \<Longrightarrow>
   calls_on s (foldl (\<lambda>w t. fire t w) w ts) = calls_on s w \<and>
   slotInfo (foldl (\<lambda>w t. fire t w) w ts) s = slotInfo w s"
proof (induction ts arbitrary: w)
  case Nil
  then show ?case by simp
next
  case (Cons t ts)
  then have "\<forall>u\<in>set ts. quiet (fire t w) s u" by (simp add: fire_quiet_preserved)
  moreover have "\<forall>u\<in>set ts. plain (t_handler u)" using Cons.prems(2) by simp
  ultimately show ?case using Cons.IH [of "fire t w"] Cons.prems by (simp add: fire_quiet)
qed

subsection \<open>A burst of pushes\<close>

lemma fire_now: "plain (t_handler t) \<Longrightarrow> now (fire t w) = max (now w) (due_of t)"
  by (simp add: fire_def afterTimer_now)

lemma fire_all_now:
  "now w \<le> tgt \<Longrightarrow> \<forall>t\<in>set ts. due_of t \<le> tgt \<and> plain (t_handler t) \<Longrightarrow> now (foldl (\<lambda>w t. fire t w) w ts) \<le> tgt"
  by (induction ts arbitrary: w) (simp_all add: fire_now)

lemma fire_all_flag_mono:
  "\<forall>t\<in>set ts. plain (t_handler t) \<Longrightarrow> flag w c \<Longrightarrow> flag (foldl (\<lambda>w t. fire t w) w ts) c"
  by (induction ts arbitrary: w) (simp_all add: fire_flag_mono)

lemma fire_all_flag_other:
  "\<forall>t\<in>set ts. t_context t \<noteq> c \<and> plain (t_handler t) \<Longrightarrow> flag (foldl (\<lambda>w t. fire t w) w ts) c = flag w c"
  by (induction ts arbitrary: w) (auto simp: fire_flag_other)

lemma fire_all_keeps:
  "\<forall>t\<in>set ts. plain (t_handler t) \<Longrightarrow> u \<in> set (tasks w) \<Longrightarrow> u \<notin> set ts \<Longrightarrow> u \<in> set (tasks (foldl (\<lambda>w t. fire t w) w ts))"
  by (induction ts arbitrary: w) (auto simp: fire_keeps)

lemma flagged_quiet: "(t_slot t = s \<longrightarrow> flag w (t_context t)) \<Longrightarrow> quiet w s t"
  by (simp add: quiet_def)

lemma pending_others_flagged:
  assumes "pending_on w s T" "t \<in> set (tasks w)" "t \<noteq> T"
  shows "t_context t \<noteq> t_context T" "t_slot t = s \<longrightarrow> flag w (t_context t)"
proof -
  from assms(1) have d: "distinct (map t_context (tasks w))" and cur: "current w"
    and T: "T \<in> set (tasks w)" and c: "slot_context (slotInfo w s) = t_context T"
    by (simp_all add: pending_on_def Inv_def)
  show ne: "t_context t \<noteq> t_context T"
    using d T assms(2,3) by (auto simp: distinct_map inj_on_def)
  show "t_slot t = s \<longrightarrow> flag w (t_context t)"
    using cur assms(2) c ne by (auto simp: current_def)
qed

lemma due_list:
  assumes "distinct (tasks w)"
  shows "set (sort_key due_of (filter (\<lambda>t. is_timer t \<and> due_of t \<le> tgt) (tasks w))) =
           {t \<in> set (tasks w). is_timer t \<and> due_of t \<le> tgt}"
    "distinct (sort_key due_of (filter (\<lambda>t. is_timer t \<and> due_of t \<le> tgt) (tasks w)))"
  using assms by auto

lemma advance_early:
  assumes "pending_on w s T" "now w + int d < due_of T"
  shows "calls_on s (advance d w) = calls_on s w" "pending_on (advance d w) s T"
    "now (advance d w) = now w + int d"
proof -
  define ts where "ts = sort_key due_of (filter (\<lambda>t. is_timer t \<and> due_of t \<le> now w + int d) (tasks w))"
  define v where "v = foldl (\<lambda>w t. fire t w) w ts"
  have adv: "advance d w = v\<lparr>now := now w + int d\<rparr>"
    by (simp add: advance_def Let_def ts_def v_def)
  from assms(1) have I: "Inv w" and T: "T \<in> set (tasks w)" by (simp_all add: pending_on_def)
  then have dt: "distinct (tasks w)" by (simp add: Inv_def distinct_map)
  have sets: "set ts = {t \<in> set (tasks w). is_timer t \<and> due_of t \<le> now w + int d}" "distinct ts"
    unfolding ts_def by (rule due_list [OF dt])+
  have nT: "T \<notin> set ts" using assms(2) sets by auto
  have pl: "\<forall>t\<in>set ts. plain (t_handler t)"
    using I sets by (simp add: Inv_def plain_tasks_def)
  have oth: "\<forall>t\<in>set ts. t_context t \<noteq> t_context T \<and> (t_slot t = s \<longrightarrow> flag w (t_context t))"
    using pending_others_flagged [OF assms(1)] nT sets by blast
  then have q: "\<forall>t\<in>set ts. quiet w s t" by (simp add: flagged_quiet)
  have Iv: "Inv v" unfolding v_def
    by (rule Inv_fire_all [OF I]) (use sets in auto)
  have 1: "calls_on s v = calls_on s w" "slotInfo v s = slotInfo w s"
    using fire_all_quiet [OF q pl] by (simp_all add: v_def)
  have 2: "flag v (t_context T) = flag w (t_context T)"
    unfolding v_def by (rule fire_all_flag_other) (use oth pl in auto)
  have 3: "T \<in> set (tasks v)" unfolding v_def by (rule fire_all_keeps [OF pl T nT])
  show "calls_on s (advance d w) = calls_on s w" using 1 by (simp add: adv calls_on_def)
  show "pending_on (advance d w) s T"
    using assms(1) 1 2 3 Inv_now [OF Iv] by (simp add: adv pending_on_def)
  show "now (advance d w) = now w + int d" by (simp add: adv)
qed

lemma advance_due:
  assumes "pending_on w s T" "due_of T = now w + int d"
  shows "calls_on s (advance d w) = calls_on s w @ [(s, t_context T, due_of T)]"
proof -
  define tgt where "tgt = now w + int d"
  define ts where "ts = sort_key due_of (filter (\<lambda>t. is_timer t \<and> due_of t \<le> tgt) (tasks w))"
  have adv: "advance d w = (foldl (\<lambda>w t. fire t w) w ts)\<lparr>now := tgt\<rparr>"
    by (simp add: advance_def Let_def ts_def tgt_def)
  from assms(1) have I: "Inv w" and T: "T \<in> set (tasks w)" "is_timer T" "t_slot T = s"
    and cT: "slot_context (slotInfo w s) = t_context T" "\<not> flag w (t_context T)"
      "executing (slotInfo w s) = None"
    by (simp_all add: pending_on_def)
  from I have dt: "distinct (tasks w)" by (simp add: Inv_def distinct_map)
  have sets: "set ts = {t \<in> set (tasks w). is_timer t \<and> due_of t \<le> tgt}" "distinct ts"
    unfolding ts_def by (rule due_list [OF dt])+
  have "T \<in> set ts" using T assms(2) sets by (simp add: tgt_def)
  then obtain xs ys where split: "ts = xs @ T # ys" by (auto dest: split_list)
  with sets(2) have nT: "T \<notin> set xs" "T \<notin> set ys" by auto
  have oth: "\<forall>t\<in>set xs \<union> set ys. t_context t \<noteq> t_context T \<and> (t_slot t = s \<longrightarrow> flag w (t_context t))"
    using pending_others_flagged [OF assms(1)] nT sets split by auto
  have pl: "\<forall>t\<in>set ts. plain (t_handler t)"
    using I sets by (simp add: Inv_def plain_tasks_def)
  then have plx: "\<forall>t\<in>set xs. plain (t_handler t)" and ply: "\<forall>t\<in>set ys. plain (t_handler t)"
    and plT: "plain (t_handler T)"
    by (simp_all add: split)
  define v1 where "v1 = foldl (\<lambda>w t. fire t w) w xs"
  define v2 where "v2 = fire T v1"
  have fold: "foldl (\<lambda>w t. fire t w) w ts = foldl (\<lambda>w t. fire t w) v2 ys"
    by (simp add: split v1_def v2_def)
  have q1: "\<forall>t\<in>set xs. quiet w s t" using oth by (simp add: flagged_quiet)
  have 1: "calls_on s v1 = calls_on s w" "slotInfo v1 s = slotInfo w s"
    using fire_all_quiet [OF q1 plx] by (simp_all add: v1_def)
  have 2: "flag v1 (t_context T) = flag w (t_context T)"
    unfolding v1_def by (rule fire_all_flag_other) (use oth plx in auto)
  have "now v1 \<le> tgt" unfolding v1_def
    by (rule fire_all_now) (use sets split plx in \<open>auto simp: tgt_def\<close>)
  then have 3: "max (now v1) (due_of T) = due_of T" using assms(2) by (simp add: tgt_def)
  have v2: "v2 = invoke s (t_context T) (t_handler T)
                  (v1\<lparr>now := due_of T, tasks := remove1 T (tasks v1)\<rparr>)"
    using 1 2 3 cT T by (simp add: v2_def fire_def afterTimer.simps afterExecuting.simps)
  have 4: "calls_on s v2 = calls_on s w @ [(s, t_context T, due_of T)]"
    using 1 plT by (simp add: v2 invoke_calls calls_on_def)
  have q2: "\<forall>t\<in>set ys. quiet v2 s t"
  proof
    fix t assume "t \<in> set ys"
    with oth have "t_slot t = s \<longrightarrow> flag w (t_context t)" by simp
    then have "t_slot t = s \<longrightarrow> flag v2 (t_context t)"
      using plx plT by (auto simp: v2_def v1_def fire_flag_mono fire_all_flag_mono)
    then show "quiet v2 s t" by (rule flagged_quiet)
  qed
  have "calls_on s (foldl (\<lambda>w t. fire t w) v2 ys) = calls_on s v2"
    using fire_all_quiet [OF q2 ply] by simp
  with 4 show ?thesis by (simp add: adv fold calls_on_def)
qed

lemma getOrCreate_slotInfo:
  "lastTriggered (slotInfo (snd (getOrCreateSlotInfo s w)) s') = lastTriggered (slotInfo w s')"
  "executing (slotInfo (snd (getOrCreateSlotInfo s w)) s') = executing (slotInfo w s')"
  by (auto simp: getOrCreateSlotInfo_def slotInfo_def Let_def split: option.splits)

lemma getOrCreate_fields:
  "tasks (snd (getOrCreateSlotInfo s w)) = tasks w"
  "calls (snd (getOrCreateSlotInfo s w)) = calls w"
  "now (snd (getOrCreateSlotInfo s w)) = now w"
  "promises (snd (getOrCreateSlotInfo s w)) = promises w"
  "rejected (snd (getOrCreateSlotInfo s w)) = rejected w"
  by (auto simp: getOrCreateSlotInfo_def Let_def split: option.splits)

lemma usableI: "\<not> inherited s \<Longrightarrow> usable w s"
  by (simp add: usable_def)

lemma usable_mono: "usable w s \<Longrightarrow> dom (MySlots w) \<subseteq> dom (MySlots w') \<Longrightarrow> usable w' s"
  by (auto simp: usable_def)

lemma start_push_timer:
  fixes s :: string and w :: world
  defines "c \<equiv> length (heap (snd (getOrCreateSlotInfo s w)))"
  assumes "0 < period" "period \<le> 2147483647" "usable w s"
  shows "tasks (start s Push period h w) = tasks w @ [Task s c h (AtTimer (now w + period))]"
    "calls (start s Push period h w) = calls w"
    "now (start s Push period h w) = now w"
    "slot_context (slotInfo (start s Push period h w) s) = c"
    "executing (slotInfo (start s Push period h w) s) = executing (slotInfo w s)"
    "slot_context (slotInfo (snd (getOrCreateSlotInfo s w)) s) < c \<Longrightarrow>
       \<not> flag (start s Push period h w) c"
  using assms(2,3) getOrCreate_slotInfo(2) [of s w s] getOrCreate_fst [OF assms(4)]
  by (auto simp: start.simps split_def Let_def effective_def c_def getOrCreate_fields timeNow_def
        flag_def nth_append nth_list_update set_cancel_def setTimeout_delay_def)

lemma getOrCreate_context_bound:
  assumes "Inv w" "usable w s"
  shows "slot_context (slotInfo (snd (getOrCreateSlotInfo s w)) s)
           < length (heap (snd (getOrCreateSlotInfo s w)))"
proof -
  have "wf_slots (snd (getOrCreateSlotInfo s w))"
    using Inv_getOrCreate [OF assms(1), of s] by (simp add: Inv_def)
  then show ?thesis
    using getOrCreate_dom [OF assms(2)] unfolding wf_slots_def by blast
qed

lemma start_push_pending:
  assumes "Inv w" "0 < period" "executing (slotInfo w s) = None"
    "period \<le> 2147483647" "usable w s" "plain h"
  shows "pending_on (start s Push period h w) s
           (Task s (length (heap (snd (getOrCreateSlotInfo s w)))) h (AtTimer (now w + period)))"
  using assms Inv_start [OF assms(1,6), of s Push period]
    getOrCreate_context_bound [OF assms(1,5)]
  by (simp add: pending_on_def start_push_timer)

lemma run_Nil [simp]: "run [] w = w"
  by (simp add: run_def)

lemma run_Cons [simp]: "run (e # es) w = run es (step e w)"
  by (simp add: run_def)

lemma run_append [simp]: "run (es @ fs) w = run fs (run es w)"
  by (simp add: run_def)

lemma pushes_quiet:
  "Inv w \<Longrightarrow> executing (slotInfo w s) = None \<Longrightarrow> 0 < period \<Longrightarrow>
   \<forall>x\<in>set xs. int (snd x) < period \<and> plain (fst x) \<Longrightarrow>
   period \<le> 2147483647 \<Longrightarrow> \<not> inherited s \<Longrightarrow>
   Inv (run (pushes s period xs) w) \<and> executing (slotInfo (run (pushes s period xs) w) s) = None \<and>
   calls_on s (run (pushes s period xs) w) = calls_on s w"
proof (induction xs arbitrary: w)
  case Nil
  then show ?case by simp
next
  case (Cons x xs)
  obtain h d where x: "x = (h, d)" by (cases x)
  let ?T = "Task s (length (heap (snd (getOrCreateSlotInfo s w)))) h (AtTimer (now w + period))"
  let ?w1 = "start s Push period h w"
  let ?w2 = "advance d ?w1"
  have us: "usable w s" using Cons.prems(6) by (rule usableI)
  have ph: "plain h" using Cons.prems(4) by (simp add: x)
  have p1: "pending_on ?w1 s ?T"
    using Cons.prems us ph by (simp add: start_push_pending)
  have c1: "calls_on s ?w1 = calls_on s w" "now ?w1 = now w"
    using Cons.prems(3,5) us by (simp_all add: calls_on_def start_push_timer)
  have early: "now ?w1 + int d < due_of ?T" using Cons.prems(4) c1 by (simp add: x)
  note a = advance_early [OF p1 early]
  have "Inv ?w2" "executing (slotInfo ?w2 s) = None"
    using a(2) by (simp_all add: pending_on_def)
  from Cons.IH [OF this Cons.prems(3) _ Cons.prems(5,6)] Cons.prems(4) a(1) c1
  show ?case by (simp add: x)
qed

lemma coalesce_aux:
  assumes "Inv w" "executing (slotInfo w s) = None" "0 < period"
    "\<forall>x\<in>set xs. int (snd x) < period \<and> plain (fst x)"
    "period \<le> 2147483647" "\<not> inherited s" "plain h"
    and w1_def: "w1 = run (pushes s period xs @ [Start s Push period h]) w"
  shows "calls_on s w1 = calls_on s w"
    "calls_on s (advance (nat period) w1) =
       calls_on s w @ [(s, slot_context (slotInfo w1 s), now w1 + period)]"
    "int d < period \<Longrightarrow> calls_on s (advance d w1) = calls_on s w"
proof -
  define v where "v = run (pushes s period xs) w"
  note q = pushes_quiet [OF assms(1-6), folded v_def]
  have us: "usable v s" using assms(6) by (rule usableI)
  let ?T = "Task s (length (heap (snd (getOrCreateSlotInfo s v)))) h (AtTimer (now v + period))"
  have w1: "w1 = start s Push period h v" by (simp add: w1_def v_def)
  have p1: "pending_on w1 s ?T"
    using q assms(3,5,7) us by (simp add: w1 start_push_pending)
  have c1: "calls_on s w1 = calls_on s v" "now w1 = now v" "slot_context (slotInfo w1 s) = t_context ?T"
    using assms(3,5) us by (simp_all add: w1 calls_on_def start_push_timer)
  show "calls_on s w1 = calls_on s w" using c1 q by simp
  have "due_of ?T = now w1 + int (nat period)" using assms(3) c1 by simp
  from advance_due [OF p1 this] c1 q
  show "calls_on s (advance (nat period) w1) =
       calls_on s w @ [(s, slot_context (slotInfo w1 s), now w1 + period)]" by simp
  show "calls_on s (advance d w1) = calls_on s w" if "int d < period"
  proof -
    have "now w1 + int d < due_of ?T" using that c1 by simp
    from advance_early(1) [OF p1 this] c1 q show ?thesis by simp
  qed
qed

subsection \<open>While an execution is in flight\<close>

lemma in_flight_executing:
  assumes "Inv w" "in_flight w s p"
  shows "executing (slotInfo w s) = Some p" "busy w s"
proof -
  from assms(2) obtain t where t: "t \<in> set (tasks w)" "t_slot t = s" "t_wait t = AtHandler p"
    by (auto simp: in_flight_def)
  then have "awaits p t" by (simp add: awaits_iff)
  with assms(1) t show e: "executing (slotInfo w s) = Some p"
    unfolding Inv_def waiting_def by blast
  with assms(2) show "busy w s" by (simp add: busy_def in_flight_def)
qed

lemma in_flight_mono:
  assumes "in_flight w s p" "set (tasks w) \<subseteq> set (tasks w')" "pstate_of w' p = Pending"
  shows "in_flight w' s p"
  using assms by (auto simp: in_flight_def)

lemma afterExecuting_tasks_mono: "plain h \<Longrightarrow> set (tasks w) \<subseteq> set (tasks (afterExecuting s c h w))"
  by (auto simp: afterExecuting.simps invoke_tasks)

lemma afterExecuting_pstate: "plain h \<Longrightarrow> pstate_of w p = Pending \<Longrightarrow> pstate_of (afterExecuting s c h w) p = Pending"
  by (simp add: afterExecuting.simps invoke_pstate_Pending)

lemma afterTimer_pstate_Pending: "plain h \<Longrightarrow> pstate_of w p = Pending \<Longrightarrow> pstate_of (afterTimer s c h w) p = Pending"
  by (auto simp: afterTimer.simps afterExecuting_pstate split: option.splits pstate.splits)

lemma fire_pstate_Pending: "plain (t_handler t) \<Longrightarrow> pstate_of w p = Pending \<Longrightarrow> pstate_of (fire t w) p = Pending"
  by (simp add: fire_def afterTimer_pstate_Pending)

lemma fire_all_pstate_Pending:
  "\<forall>t\<in>set ts. plain (t_handler t) \<Longrightarrow> pstate_of w p = Pending \<Longrightarrow> pstate_of (foldl (\<lambda>w t. fire t w) w ts) p = Pending"
  by (induction ts arbitrary: w) (simp_all add: fire_pstate_Pending)

lemma fire_all_busy:
  "busy w s \<Longrightarrow> \<forall>t\<in>set ts. plain (t_handler t) \<Longrightarrow> calls_on s (foldl (\<lambda>w t. fire t w) w ts) = calls_on s w"
proof (induction ts arbitrary: w)
  case Nil
  then show ?case by simp
next
  case (Cons t ts)
  have q: "quiet w s t" using Cons.prems by (simp add: quiet_def)
  have pt: "plain (t_handler t)" using Cons.prems(2) by simp
  have "\<forall>t\<in>set ts. plain (t_handler t)" using Cons.prems(2) by simp
  from Cons.IH [OF fire_busy [OF q pt Cons.prems(1)] this]
  show ?case by (simp add: fire_quiet [OF q pt])
qed

lemma advance_in_flight:
  assumes "Inv w" "in_flight w s p"
  shows "calls_on s (advance d w) = calls_on s w" "in_flight (advance d w) s p"
proof -
  define ts where "ts = sort_key due_of (filter (\<lambda>t. is_timer t \<and> due_of t \<le> now w + int d) (tasks w))"
  define v where "v = foldl (\<lambda>w t. fire t w) w ts"
  have adv: "advance d w = v\<lparr>now := now w + int d\<rparr>"
    by (simp add: advance_def Let_def ts_def v_def)
  have pl: "\<forall>t\<in>set ts. plain (t_handler t)"
    using assms(1) by (simp add: ts_def Inv_def plain_tasks_def)
  show "calls_on s (advance d w) = calls_on s w"
    using fire_all_busy [OF in_flight_executing(2) [OF assms] pl]
    by (simp add: adv v_def calls_on_def)
  from assms(2) obtain t where t: "t \<in> set (tasks w)" "t_slot t = s" "t_wait t = AtHandler p"
    and pp: "pstate_of w p = Pending"
    by (auto simp: in_flight_def)
  have "\<not> is_timer t" using t(3) by (cases t) simp
  then have "t \<notin> set ts" by (simp add: ts_def)
  then have "t \<in> set (tasks v)" unfolding v_def by (rule fire_all_keeps [OF pl t(1)])
  moreover have "pstate_of v p = Pending" unfolding v_def
    by (rule fire_all_pstate_Pending [OF pl pp])
  ultimately show "in_flight (advance d w) s p" using t by (auto simp: adv in_flight_def)
qed

lemma getOrCreate_pstate: "pstate_of (snd (getOrCreateSlotInfo s w)) = pstate_of w"
  by (auto simp: getOrCreateSlotInfo_def Let_def pstate_of_def fun_eq_iff split: option.splits)

lemma allocated_slotInfo: "slotInfo (allocated s w) = slotInfo (snd (getOrCreateSlotInfo s w))"
  by (simp add: allocated_def Let_def)

lemma start_unfold:
  "usable w s \<Longrightarrow>
   start s m period h w =
     (let w2 = allocated s w; c = length (heap w2) - 1;
          mp = effective m period (Some (slotInfo w2 s)) w2;
          w4 = installed s (fst mp) w
      in if fst mp \<noteq> Push \<and> \<not> flag w2 (slot_context (slotInfo w2 s)) then w2
         else if snd mp \<noteq> 0
              then w4\<lparr>tasks := tasks w4 @
                        [Task s c h (AtTimer (now w + setTimeout_delay (snd mp)))]\<rparr>
              else afterTimer s c h w4)"
  using getOrCreate_fst [of w s]
  by (simp add: start.simps split_def Let_def allocated_def installed_def timeNow_def
        getOrCreate_fields)

lemma allocated_fields:
  "tasks (allocated s w) = tasks w" "calls (allocated s w) = calls w"
  "now (allocated s w) = now w" "pstate_of (allocated s w) = pstate_of w"
  "rejected (allocated s w) = rejected w"
  "executing (slotInfo (allocated s w) s') = executing (slotInfo w s')"
  "lastTriggered (slotInfo (allocated s w) s') = lastTriggered (slotInfo w s')"
  by (simp_all add: allocated_def Let_def getOrCreate_fields getOrCreate_slotInfo getOrCreate_pstate)

lemma installed_fields:
  "tasks (installed s m w) = tasks w" "calls (installed s m w) = calls w"
  "now (installed s m w) = now w" "pstate_of (installed s m w) = pstate_of w"
  "rejected (installed s m w) = rejected w"
  "executing (slotInfo (installed s m w) s') = executing (slotInfo w s')"
  "lastTriggered (slotInfo (installed s m w) s') = lastTriggered (slotInfo w s')"
  by (simp_all add: installed_def Let_def allocated_fields)

lemma start_tasks_mono:
  assumes "plain h"
  shows "set (tasks w) \<subseteq> set (tasks (start s m period h w))"
proof (cases "usable w s")
  case False
  then show ?thesis by (simp add: start_unusable)
next
  case True
  note a = afterTimer_tasks_mono [OF assms]
  show ?thesis
    using a [of "installed s Push w"] a [of "installed s Ignore w"] a [of "installed s Cooldown w"]
    by (cases "fst (effective m period (Some (slotInfo (allocated s w) s)) (allocated s w))")
       (auto simp: start_unfold [OF True] Let_def allocated_fields installed_fields)
qed

lemma start_pstate_Pending:
  "plain h \<Longrightarrow> pstate_of w p = Pending \<Longrightarrow> pstate_of (start s m period h w) p = Pending"
proof (cases "usable w s")
  case True
  assume "plain h" "pstate_of w p = Pending"
  then show ?thesis
    by (auto simp: start_unfold [OF True] Let_def allocated_fields installed_fields
          afterTimer_pstate_Pending)
next
  case False
  assume "pstate_of w p = Pending"
  then show ?thesis by (simp add: start_unusable [OF False] pstate_of_def)
qed

lemma start_calls_other:
  "plain h \<Longrightarrow> s' \<noteq> s \<Longrightarrow> calls_on s (start s' m period h w) = calls_on s w"
  by (cases "usable w s'")
     (auto simp: start_unfold Let_def afterTimer_calls_other start_unusable,
      simp_all add: calls_on_def allocated_fields installed_fields)

lemma busy_installed: "busy (installed s' m w) s = busy w s"
  by (simp add: busy_def installed_fields)

lemma start_busy_calls: "busy w s \<Longrightarrow> calls (start s m period h w) = calls w"
  by (cases "usable w s")
     (auto simp: start_unfold Let_def allocated_fields installed_fields afterTimer_busy_calls
        busy_installed start_unusable)

lemma resume_calls_other:
  "plain (t_handler t) \<Longrightarrow> t_slot t \<noteq> s \<Longrightarrow> calls_on s (resume ok t w) = calls_on s w"
  by (auto simp: resume_def afterHandler_def afterExecuting.simps invoke_calls calls_on_def
        split: wait.splits)

lemma resume_tasks_mono: "plain (t_handler t) \<Longrightarrow> set (tasks w) \<subseteq> set (tasks (resume ok t w))"
  using afterExecuting_tasks_mono [of "t_handler t" w "t_slot t" "t_context t"]
  by (auto simp: resume_def afterHandler_def split: wait.splits)

lemma resume_pstate_Pending: "plain (t_handler t) \<Longrightarrow> pstate_of w p = Pending \<Longrightarrow> pstate_of (resume ok t w) p = Pending"
  by (auto simp: resume_def afterHandler_def afterExecuting_pstate split: wait.splits)

lemma resume_all_other:
  "\<forall>t\<in>set ts. t_slot t \<noteq> s \<and> plain (t_handler t) \<Longrightarrow>
   calls_on s (foldl (\<lambda>w t. resume ok t w) w ts) = calls_on s w"
  by (induction ts arbitrary: w) (simp_all add: resume_calls_other)

lemma resume_all_tasks_mono:
  "\<forall>t\<in>set ts. plain (t_handler t) \<Longrightarrow>
   set (tasks w) \<subseteq> set (tasks (foldl (\<lambda>w t. resume ok t w) w ts))"
proof (induction ts arbitrary: w)
  case Nil
  show ?case by simp
next
  case (Cons t ts)
  show ?case using resume_tasks_mono [of t w ok] Cons.IH [of "resume ok t w"] Cons.prems by auto
qed

lemma resume_all_pstate_Pending:
  "\<forall>t\<in>set ts. plain (t_handler t) \<Longrightarrow> pstate_of w p = Pending \<Longrightarrow> pstate_of (foldl (\<lambda>w t. resume ok t w) w ts) p = Pending"
  by (induction ts arbitrary: w) (simp_all add: resume_pstate_Pending)

lemma settle_in_flight:
  assumes "Inv w" "in_flight w s p" "q \<noteq> p"
  shows "calls_on s (settle q ok w) = calls_on s w" "in_flight (settle q ok w) s p"
proof -
  let ?w = "w\<lparr>promises := (promises w)[q := (if ok then Resolved else Rejected)],
              tasks := filter (\<lambda>t. \<not> awaits q t) (tasks w)\<rparr>"
  let ?ws = "filter (awaits q) (tasks w)"
  from assms(1) have wt: "waiting w" by (simp add: Inv_def)
  have pl: "\<forall>t\<in>set ?ws. plain (t_handler t)"
    using assms(1) by (simp add: Inv_def plain_tasks_def)
  note e = in_flight_executing(1) [OF assms(1,2)]
  from assms(2) obtain o' where o: "o' \<in> set (tasks w)" "t_slot o' = s" "t_wait o' = AtHandler p"
    and pp: "pstate_of w p = Pending"
    by (auto simp: in_flight_def)
  have other: "\<forall>t\<in>set ?ws. t_slot t \<noteq> s \<and> plain (t_handler t)"
  proof
    fix t assume t: "t \<in> set ?ws"
    then have "executing (slotInfo w (t_slot t)) = Some q" using wt by (auto simp: waiting_def)
    with e assms(3) have "t_slot t \<noteq> s" by auto
    with pl t show "t_slot t \<noteq> s \<and> plain (t_handler t)" by simp
  qed
  have c: "calls_on s (foldl (\<lambda>w t. resume ok t w) ?w ?ws) = calls_on s w"
    using resume_all_other [OF other, of ok ?w] by (simp add: calls_on_def)
  have "\<not> awaits q o'" using o(3) assms(3) by (simp add: awaits_iff)
  then have "o' \<in> set (tasks ?w)" using o(1) by simp
  then have o2: "o' \<in> set (tasks (foldl (\<lambda>w t. resume ok t w) ?w ?ws))"
    using resume_all_tasks_mono [OF pl] by blast
  have "pstate_of ?w p = Pending" using pp assms(3) by (auto simp: pstate_of_def split: if_splits)
  then have p2: "pstate_of (foldl (\<lambda>w t. resume ok t w) ?w ?ws) p = Pending"
    by (rule resume_all_pstate_Pending [OF pl])
  have f: "in_flight (foldl (\<lambda>w t. resume ok t w) ?w ?ws) s p"
    using o o2 p2 by (auto simp: in_flight_def)
  show "calls_on s (settle q ok w) = calls_on s w"
    using c by (simp add: settle_def Let_def)
  show "in_flight (settle q ok w) s p"
    using f assms(2) by (simp add: settle_def Let_def)
qed

lemma step_in_flight:
  assumes "Inv w" "in_flight w s p" "\<forall>ok. e \<noteq> Settle p ok" "plain_event e"
  shows "calls_on s (step e w) = calls_on s w \<and> in_flight (step e w) s p"
proof (cases e)
  case (Start s' m period h)
  with assms(4) have ph: "plain h" by simp
  have "calls_on s (start s' m period h w) = calls_on s w"
    using start_calls_other [OF ph, of s' s]
      start_busy_calls [OF in_flight_executing(2) [OF assms(1,2)]]
    by (cases "s' = s") (simp_all add: calls_on_def)
  moreover have "in_flight (start s' m period h w) s p"
    by (rule in_flight_mono [OF assms(2) start_tasks_mono [OF ph]])
       (use assms(2) ph in \<open>simp add: in_flight_def start_pstate_Pending\<close>)
  ultimately show ?thesis by (simp add: Start)
next
  case (Cancel s')
  then show ?thesis using assms(2)
    by (auto simp: cancel_def split_def Let_def calls_on_def in_flight_def getOrCreate_fields
          getOrCreate_pstate split: option.splits)
next
  case (OnCD s' period)
  then show ?thesis using assms(2)
    by (simp add: onCD_def split_def Let_def calls_on_def in_flight_def getOrCreate_fields
          getOrCreate_pstate)
next
  case (Advance d)
  then show ?thesis using advance_in_flight [OF assms(1,2)] by simp
next
  case (Settle q ok)
  with assms(3) have "q \<noteq> p" by auto
  from settle_in_flight [OF assms(1,2) this] show ?thesis by (simp add: Settle)
qed

lemma resume_flagged:
  "\<forall>b\<in>set bs. flag w (t_context b) \<Longrightarrow>
   foldl (\<lambda>w t. afterExecuting (t_slot t) (t_context t) (t_handler t) w) w bs = w"
  by (induction bs) (simp_all add: afterExecuting.simps)

lemma resume_waiters_calls:
  "distinct (map t_context bs) \<Longrightarrow>
   \<forall>b\<in>set bs. t_slot b = s \<and> (\<not> flag w (t_context b) \<longrightarrow> slot_context (slotInfo w s) = t_context b) \<Longrightarrow>
   \<forall>b\<in>set bs. plain (t_handler b) \<Longrightarrow>
   \<exists>xs. calls (foldl (\<lambda>w t. afterExecuting (t_slot t) (t_context t) (t_handler t) w) w bs) = calls w @ xs
        \<and> length xs \<le> 1"
proof (induction bs)
  case Nil
  then show ?case by simp
next
  case (Cons b bs)
  show ?case
  proof (cases "flag w (t_context b)")
    case True
    then have "afterExecuting (t_slot b) (t_context b) (t_handler b) w = w"
      by (simp add: afterExecuting.simps)
    with Cons show ?thesis by simp
  next
    case False
    let ?w = "invoke (t_slot b) (t_context b) (t_handler b) w"
    from False Cons.prems have C: "slot_context (slotInfo w s) = t_context b" by auto
    have "\<forall>u\<in>set bs. flag w (t_context u)"
    proof
      fix u assume u: "u \<in> set bs"
      then have "t_context u \<in> t_context ` set bs" by (rule imageI)
      with Cons.prems(1) have "t_context u \<noteq> slot_context (slotInfo w s)" by (auto simp: C)
      moreover from u Cons.prems(2)
      have "\<not> flag w (t_context u) \<longrightarrow> slot_context (slotInfo w s) = t_context u" by simp
      ultimately show "flag w (t_context u)" by auto
    qed
    moreover have pb: "plain (t_handler b)" using Cons.prems(3) by simp
    ultimately have "\<forall>u\<in>set bs. flag ?w (t_context u)" by (simp add: invoke_flag)
    from resume_flagged [OF this] False pb show ?thesis
      by (simp add: afterExecuting.simps invoke_calls)
  qed
qed

lemma settle_calls_resolve:
  assumes "Inv w" "p < length (promises w)" "promises w ! p = Pending"
  shows "\<exists>xs. calls (settle p True w) = calls w @ xs \<and> length xs \<le> 1"
proof -
  let ?w = "w\<lparr>promises := (promises w)[p := Resolved],
              tasks := filter (\<lambda>t. \<not> awaits p t) (tasks w)\<rparr>"
  have st: "settle p True w = foldl (\<lambda>w t. resume True t w) ?w (filter (awaits p) (tasks w))"
    using assms(2,3) by (simp add: settle_def Let_def)
  show ?thesis
  proof (cases "filter (awaits p) (tasks w)")
    case Nil
    then show ?thesis by (simp add: st)
  next
    case (Cons a bs)
    note sh = waiters_shape [OF assms Cons]
    from assms have d: "distinct (map t_context (tasks w))" and cur: "current w"
      by (simp_all add: Inv_def)
    let ?v = "afterHandler (t_slot a) (t_context a) ?w"
    have mem: "\<And>u. u \<in> set (a # bs) \<longleftrightarrow> u \<in> set (tasks w) \<and> awaits p u"
      unfolding Cons [symmetric] by simp
    have dab: "distinct (map t_context (a # bs))"
      unfolding Cons [symmetric] using d by (rule distinct_map_filter)
    have "\<exists>xs. calls (foldl (\<lambda>w t. afterExecuting (t_slot t) (t_context t) (t_handler t) w) ?v bs)
               = calls ?v @ xs \<and> length xs \<le> 1"
    proof (rule resume_waiters_calls [where s = "t_slot a"])
      show "distinct (map t_context bs)" using dab by simp
      show "\<forall>b\<in>set bs. t_slot b = t_slot a \<and>
          (\<not> flag ?v (t_context b) \<longrightarrow> slot_context (slotInfo ?v (t_slot a)) = t_context b)"
      proof
        fix b assume b: "b \<in> set bs"
        then have bt: "b \<in> set (tasks w)" using mem [of b] by simp
        from b sh have sb: "t_slot b = t_slot a" by simp
        with bt cur show "t_slot b = t_slot a \<and>
          (\<not> flag ?v (t_context b) \<longrightarrow> slot_context (slotInfo ?v (t_slot a)) = t_context b)"
          by (auto simp: current_def afterHandler_def)
      qed
      show "\<forall>b\<in>set bs. plain (t_handler b)"
      proof
        fix b assume "b \<in> set bs"
        then have "b \<in> set (tasks w)" using mem [of b] by simp
        with assms(1) show "plain (t_handler b)" by (simp add: Inv_def plain_tasks_def)
      qed
    qed
    moreover have "resume True a ?w = ?v" using sh by (simp add: resume_def)
    moreover have "calls ?v = calls w" by (simp add: afterHandler_def)
    ultimately show ?thesis
      using sh by (simp add: st Cons foldl_resume_executing [where p = p])
  qed
qed

lemma settle_calls:
  assumes "Inv w"
  shows "\<exists>xs. calls (settle p ok w) = calls w @ xs \<and> length xs \<le> 1"
proof (cases "p < length (promises w) \<and> promises w ! p = Pending")
  case False
  then show ?thesis by (auto simp: settle_def)
next
  case True
  show ?thesis
  proof (cases ok)
    case False
    then show ?thesis using True by (simp add: settle_def Let_def foldl_reject)
  next
    case ok: True
    then show ?thesis using settle_calls_resolve [OF assms] True by simp
  qed
qed

lemma settle_calls_on:
  assumes "Inv w"
  shows "length (calls_on s (settle p ok w)) \<le> Suc (length (calls_on s w))"
proof -
  from settle_calls [OF assms, of p ok] obtain xs
    where "calls (settle p ok w) = calls w @ xs" "length xs \<le> 1" by blast
  moreover have "length (filter (\<lambda>e. fst e = s) xs) \<le> length xs" by (rule length_filter_le)
  ultimately show ?thesis by (simp add: calls_on_def del: length_filter_le)
qed

section \<open>Facts about single calls\<close>

subsection \<open>Trigger times only move forward\<close>

lemma lt_le_refl [simp]: "lt_le a a"
  by (cases a) simp_all

lemma lt_le_trans: "lt_le a b \<Longrightarrow> lt_le b c \<Longrightarrow> lt_le a c"
  by (cases a; cases b; cases c) simp_all

lemma lt_le_max: "lt_le a (Some (max (nullish a n) n))"
  by (cases a) simp_all

lemma grows_refl [simp]: "grows s w w"
  by (simp add: grows_def)

lemma grows_trans: "grows s w w' \<Longrightarrow> grows s w' w'' \<Longrightarrow> grows s w w''"
  unfolding grows_def by (rule lt_le_trans)

lemma grows_eq: "lastTriggered (slotInfo w' s) = lastTriggered (slotInfo w s) \<Longrightarrow> grows s w w'"
  by (simp add: grows_def)

subsection \<open>What no handler can undo\<close>

lemma ext_refl [simp]: "ext w w"
  by (simp add: ext_def)

lemma ext_trans:
  assumes "ext w w'" "ext w' w''"
  shows "ext w w''"
proof -
  have "\<forall>s. grows s w w''"
    using assms grows_trans unfolding ext_def by blast
  moreover have "\<exists>xs. calls w'' = calls w @ xs"
    using assms unfolding ext_def by auto
  moreover have "dom (MySlots w) \<subseteq> dom (MySlots w'')"
    using assms unfolding ext_def by blast
  moreover have "\<forall>s l. lastTriggered (slotInfo w s) = Some l \<and> now w \<le> l \<longrightarrow>
             lastTriggered (slotInfo w'' s) = Some l"
    using assms unfolding ext_def by simp
  moreover have "now w'' = now w" "length (heap w) \<le> length (heap w'')"
    using assms unfolding ext_def by simp_all
  ultimately show ?thesis unfolding ext_def by blast
qed

lemma ext_same:
  assumes "now w' = now w" "calls w' = calls w" "length (heap w) \<le> length (heap w')"
    "dom (MySlots w) \<subseteq> dom (MySlots w')"
    "\<And>s. lastTriggered (slotInfo w' s) = lastTriggered (slotInfo w s)"
  shows "ext w w'"
  using assms by (simp add: ext_def grows_eq)

lemma ext_tasks [simp]: "ext w (w\<lparr>tasks := ts\<rparr>)"
  by (rule ext_same) simp_all

lemma ext_rejected [simp]: "ext w (w\<lparr>rejected := r\<rparr>)"
  by (rule ext_same) simp_all

lemma ext_promises [simp]: "ext w (w\<lparr>promises := ps\<rparr>)"
  by (rule ext_same) simp_all

lemma ext_heap_snoc [simp]: "ext w (w\<lparr>heap := heap w @ [b]\<rparr>)"
  by (rule ext_same) simp_all

lemma ext_set_cancel [simp]: "ext w (set_cancel c w)"
  by (rule ext_same) simp_all

lemma ext_setSlot_executing [simp]:
  "ext w (setSlot s ((slotInfo w s)\<lparr>executing := e\<rparr>) w)"
  by (rule ext_same) auto

lemma ext_setSlot_context [simp]:
  "ext w (setSlot s ((slotInfo w s)\<lparr>slot_context := c\<rparr>) w)"
  by (rule ext_same) auto

lemma ext_getOrCreate: "ext w (snd (getOrCreateSlotInfo s w))"
proof (rule ext_same)
  show "length (heap w) \<le> length (heap (snd (getOrCreateSlotInfo s w)))"
    by (auto simp: getOrCreateSlotInfo_def Let_def split: option.splits)
  show "dom (MySlots w) \<subseteq> dom (MySlots (snd (getOrCreateSlotInfo s w)))"
    by (auto simp: getOrCreateSlotInfo_def Let_def split: option.splits)
qed (simp_all add: getOrCreate_fields getOrCreate_slotInfo)

text \<open>Lines 179 and 181 up to the call of the handler.\<close>

lemma ext_triggered:
  "ext w ((setSlot s ((slotInfo w s)\<lparr>lastTriggered :=
              Some (max (nullish (lastTriggered (slotInfo w s)) (now w)) (now w))\<rparr>) w)
          \<lparr>calls := calls w @ [(s, c, now w)]\<rparr>)"
  unfolding ext_def
  by (auto simp: grows_def lt_le_max)

lemma invoke_ext:
  assumes "\<And>w. ext w (snd (call_handler h w))"
  shows "ext ((setSlot s ((slotInfo w s)\<lparr>lastTriggered :=
              Some (max (nullish (lastTriggered (slotInfo w s)) (now w)) (now w))\<rparr>) w)
          \<lparr>calls := calls w @ [(s, c, now w)]\<rparr>) (invoke s c h w)"
proof -
  let ?w2 = "(setSlot s ((slotInfo w s)\<lparr>lastTriggered :=
              Some (max (nullish (lastTriggered (slotInfo w s)) (now w)) (now w))\<rparr>) w)
          \<lparr>calls := calls w @ [(s, c, now w)]\<rparr>"
  obtain r w3 where c: "call_handler h ?w2 = (r, w3)" by (cases "call_handler h ?w2")
  from assms [of ?w2] c have e: "ext ?w2 w3" by simp
  have "ext w3 (invoke s c h w)"
  proof (cases r)
    case Undefined
    with c show ?thesis by (simp add: invoke.simps Let_def timeNow_def)
  next
    case Promise
    let ?w4 = "w3\<lparr>promises := promises w3 @ [Pending]\<rparr>"
    let ?w5 = "setSlot s ((slotInfo ?w4 s)\<lparr>executing := Some (length (promises w3))\<rparr>) ?w4"
    have "ext w3 ?w4" by simp
    moreover have "ext ?w4 ?w5" by (rule ext_setSlot_executing)
    moreover have "ext ?w5 (?w5\<lparr>tasks := tasks ?w5 @ [Task s c h (AtHandler (length (promises w3)))]\<rparr>)"
      by (rule ext_tasks)
    ultimately have "ext w3 (?w5\<lparr>tasks := tasks ?w5 @ [Task s c h (AtHandler (length (promises w3)))]\<rparr>)"
      by (blast intro: ext_trans)
    moreover have "invoke s c h w
        = ?w5\<lparr>tasks := tasks ?w5 @ [Task s c h (AtHandler (length (promises w3)))]\<rparr>"
      using c Promise by (simp add: invoke.simps Let_def timeNow_def)
    ultimately show ?thesis by simp
  next
    case Thrown
    with c show ?thesis by (simp add: invoke.simps Let_def timeNow_def)
  qed
  with e show ?thesis by (rule ext_trans)
qed

lemma ext_invoke:
  assumes "\<And>w. ext w (snd (call_handler h w))"
  shows "ext w (invoke s c h w)"
  by (rule ext_trans [OF ext_triggered invoke_ext [OF assms]])

lemma ext_afterExecuting:
  assumes "\<And>w. ext w (snd (call_handler h w))"
  shows "ext w (afterExecuting s c h w)"
  by (simp add: afterExecuting.simps ext_invoke [OF assms])

lemma ext_afterTimer:
  assumes "\<And>w. ext w (snd (call_handler h w))"
  shows "ext w (afterTimer s c h w)"
  by (auto simp: afterTimer.simps ext_afterExecuting [OF assms] split: option.splits pstate.splits)

lemma ext_allocated: "ext w (allocated s w)"
  unfolding allocated_def Let_def
  by (rule ext_trans [OF ext_getOrCreate ext_heap_snoc])

lemma ext_installed: "ext w (installed s m w)"
proof -
  let ?w2 = "allocated s w"
  let ?w3 = "if m = Push then set_cancel (slot_context (slotInfo ?w2 s)) ?w2 else ?w2"
  have "ext ?w2 ?w3" by simp
  moreover have "ext ?w3 (setSlot s ((slotInfo ?w3 s)\<lparr>slot_context := length (heap ?w2) - 1\<rparr>) ?w3)"
    by (rule ext_setSlot_context)
  ultimately have "ext ?w2 (setSlot s ((slotInfo ?w3 s)\<lparr>slot_context := length (heap ?w2) - 1\<rparr>) ?w3)"
    by (rule ext_trans)
  with ext_allocated [of w s] show ?thesis
    unfolding installed_def Let_def by (rule ext_trans)
qed

lemma ext_start:
  assumes "\<And>w. ext w (snd (call_handler h w))"
  shows "ext w (start s m period h w)"
proof (cases "usable w s")
  case False
  have "ext w (w\<lparr>heap := heap w @ [False]\<rparr>)" by simp
  moreover have "ext (w\<lparr>heap := heap w @ [False]\<rparr>)
      (w\<lparr>heap := heap w @ [False], rejected := rejected w @ [length (heap w)]\<rparr>)"
    using ext_rejected [of "w\<lparr>heap := heap w @ [False]\<rparr>"] by simp
  ultimately show ?thesis unfolding start_unusable [OF False] by (rule ext_trans)
next
  case True
  have i: "ext w (installed s m' w)" for m' by (rule ext_installed)
  have t: "ext w ((installed s m' w)\<lparr>tasks := ts\<rparr>)" for m' ts
    by (rule ext_trans [OF i ext_tasks])
  have a: "ext w (afterTimer s c h (installed s m' w))" for m' c
    by (rule ext_trans [OF i ext_afterTimer [OF assms]])
  show ?thesis
    unfolding start_unfold [OF True] Let_def
    by (simp only: if_split) (intro conjI impI ext_allocated t a)
qed

lemma ext_cancel:
  assumes "cancel s w = Inr w'"
  shows "ext w w'"
proof -
  obtain v w1 where g: "getOrCreateSlotInfo s w = (v, w1)"
    by (cases "getOrCreateSlotInfo s w")
  with assms have "\<exists>c. w' = set_cancel c w1"
    by (auto simp: cancel_def split: option.splits)
  moreover have "ext w w1" using ext_getOrCreate [of w s] g by simp
  ultimately show ?thesis using ext_trans [OF _ ext_set_cancel] by blast
qed

lemma ext_onCD: "ext w (snd (onCD s period w))"
  by (simp add: onCD_def split_def Let_def ext_getOrCreate)

lemma ext_call_handler: "ext w (snd (call_handler h w))"
proof (induction h arbitrary: w)
  case (Starts s m period h k)
  have "ext w (start s m period h w)" by (rule ext_start) (rule Starts.IH(1))
  from ext_trans [OF this Starts.IH(2)] show ?case by simp
next
  case (Cancels s k)
  show ?case
  proof (cases "cancel s w")
    case (Inl e)
    then show ?thesis by simp
  next
    case (Inr w')
    from ext_trans [OF ext_cancel [OF Inr] Cancels.IH] Inr show ?thesis by simp
  qed
next
  case (Asks s period k1 k2)
  from ext_trans [OF ext_onCD Asks.IH(1)] ext_trans [OF ext_onCD Asks.IH(2)]
  show ?case by simp
qed simp_all

lemmas ext_code = ext_invoke [OF ext_call_handler] ext_afterExecuting [OF ext_call_handler]
  ext_afterTimer [OF ext_call_handler] ext_start [OF ext_call_handler]


lemma grows_now: "grows s w w' \<Longrightarrow> grows s (w\<lparr>now := n\<rparr>) w'"
  by (simp add: grows_def)












text \<open>What an invocation leaves behind, whatever the handler does.\<close>

lemma invoke_any:
  "lastTriggered (slotInfo (invoke s c h w) s)
     = Some (max (nullish (lastTriggered (slotInfo w s)) (now w)) (now w))"
  "take (Suc (length (calls w))) (calls (invoke s c h w)) = calls w @ [(s, c, now w)]"
  "now (invoke s c h w) = now w"
proof -
  let ?lt = "max (nullish (lastTriggered (slotInfo w s)) (now w)) (now w)"
  let ?w2 = "(setSlot s ((slotInfo w s)\<lparr>lastTriggered := Some ?lt\<rparr>) w)
          \<lparr>calls := calls w @ [(s, c, now w)]\<rparr>"
  note e = invoke_ext [OF ext_call_handler, where s = s and w = w and c = c and h = h]
  have "lastTriggered (slotInfo ?w2 s) = Some ?lt \<and> now ?w2 \<le> ?lt" by simp
  with e show "lastTriggered (slotInfo (invoke s c h w) s) = Some ?lt"
    unfolding ext_def by blast
  from e obtain xs where "calls (invoke s c h w) = calls ?w2 @ xs"
    unfolding ext_def by blast
  then show "take (Suc (length (calls w))) (calls (invoke s c h w)) = calls w @ [(s, c, now w)]"
    by simp
  from e show "now (invoke s c h w) = now w" unfolding ext_def by simp
qed

subsection \<open>What no handler can break\<close>

lemma wf_registry_init: "wf_registry init"
  by (simp add: wf_registry_def wf_slots_def init_def)

lemma wf_registry_same:
  assumes "wf_registry w" "dom (MySlots w') = dom (MySlots w)"
    "\<And>s. slot_context (slotInfo w' s) = slot_context (slotInfo w s)"
    "length (heap w) \<le> length (heap w')" "set (tasks w') \<subseteq> set (tasks w)"
  shows "wf_registry w'"
  using assms unfolding wf_registry_def wf_slots_def
  by (metis less_le_trans subsetD)

lemma wf_registry_upd [simp]:
  "wf_registry w \<Longrightarrow> wf_registry (w\<lparr>rejected := r\<rparr>)"
  "wf_registry w \<Longrightarrow> wf_registry (w\<lparr>promises := ps\<rparr>)"
  "wf_registry w \<Longrightarrow> wf_registry (w\<lparr>calls := cs\<rparr>)"
  "wf_registry w \<Longrightarrow> wf_registry (w\<lparr>now := n\<rparr>)"
  "wf_registry w \<Longrightarrow> wf_registry (w\<lparr>heap := heap w @ [b]\<rparr>)"
  "wf_registry w \<Longrightarrow> wf_registry (set_cancel c w)"
  by (erule wf_registry_same; simp)+

lemma wf_registry_fewer:
  "wf_registry w \<Longrightarrow> set ts \<subseteq> set (tasks w) \<Longrightarrow> wf_registry (w\<lparr>tasks := ts\<rparr>)"
  by (erule wf_registry_same) simp_all

lemma wf_registry_park:
  "wf_registry w \<Longrightarrow> s \<in> dom (MySlots w) \<Longrightarrow>
   wf_registry (w\<lparr>tasks := tasks w @ [Task s c h wt]\<rparr>)"
  by (simp add: wf_registry_def wf_slots_def)

lemma wf_registry_setSlot:
  "wf_registry w \<Longrightarrow> s \<in> dom (MySlots w) \<Longrightarrow> slot_context si = slot_context (slotInfo w s) \<Longrightarrow>
   wf_registry (setSlot s si w)"
  by (erule wf_registry_same) auto

lemma wf_registry_install:
  "wf_registry w \<Longrightarrow> s \<in> dom (MySlots w) \<Longrightarrow> slot_context si < length (heap w) \<Longrightarrow>
   wf_registry (setSlot s si w)"
  unfolding wf_registry_def wf_slots_def by auto

lemma wf_registry_getOrCreate: "wf_registry w \<Longrightarrow> wf_registry (snd (getOrCreateSlotInfo s w))"
proof (cases "MySlots w s = None \<and> \<not> inherited s")
  case False
  assume "wf_registry w"
  moreover from False have "snd (getOrCreateSlotInfo s w) = w"
    by (auto simp: getOrCreateSlotInfo_def split: option.splits)
  ultimately show ?thesis by simp
next
  case True
  assume w: "wf_registry w"
  let ?si = "\<lparr>slot_context = length (heap w), lastTriggered = None, executing = None\<rparr>"
  have e: "snd (getOrCreateSlotInfo s w) = setSlot s ?si (w\<lparr>heap := heap w @ [True]\<rparr>)"
    using True by (simp add: getOrCreateSlotInfo_def Let_def setSlot_def)
  have "wf_registry (w\<lparr>heap := heap w @ [True]\<rparr>)" using w by simp
  then show ?thesis unfolding e wf_registry_def wf_slots_def by (auto intro: less_SucI)
qed

lemma ext_dom: "ext w w' \<Longrightarrow> s \<in> dom (MySlots w) \<Longrightarrow> s \<in> dom (MySlots w')"
  unfolding ext_def by blast

lemma wf_registry_invoke:
  assumes H: "\<And>w. wf_registry w \<Longrightarrow> wf_registry (snd (call_handler h w))"
    and w: "wf_registry w" and s: "s \<in> dom (MySlots w)"
  shows "wf_registry (invoke s c h w)"
proof -
  let ?w2 = "(setSlot s ((slotInfo w s)\<lparr>lastTriggered :=
              Some (max (nullish (lastTriggered (slotInfo w s)) (now w)) (now w))\<rparr>) w)
          \<lparr>calls := calls w @ [(s, c, now w)]\<rparr>"
  obtain r w3 where c: "call_handler h ?w2 = (r, w3)" by (cases "call_handler h ?w2")
  have "wf_registry ?w2" using w s by (simp add: wf_registry_setSlot)
  from H [OF this] c have w3: "wf_registry w3" by simp
  have "s \<in> dom (MySlots ?w2)" by simp
  with ext_call_handler [of ?w2 h] c have s3: "s \<in> dom (MySlots w3)"
    by (auto dest: ext_dom)
  show ?thesis
  proof (cases r)
    case Undefined
    with c w3 show ?thesis by (simp add: invoke.simps Let_def timeNow_def)
  next
    case Promise
    let ?w4 = "w3\<lparr>promises := promises w3 @ [Pending]\<rparr>"
    let ?w5 = "setSlot s ((slotInfo ?w4 s)\<lparr>executing := Some (length (promises w3))\<rparr>) ?w4"
    have "wf_registry ?w5" using w3 s3 by (simp add: wf_registry_setSlot)
    moreover have "s \<in> dom (MySlots ?w5)" by simp
    ultimately have "wf_registry (?w5\<lparr>tasks := tasks ?w5 @ [Task s c h (AtHandler (length (promises w3)))]\<rparr>)"
      by (rule wf_registry_park)
    moreover have "invoke s c h w
        = ?w5\<lparr>tasks := tasks ?w5 @ [Task s c h (AtHandler (length (promises w3)))]\<rparr>"
      using c Promise by (simp add: invoke.simps Let_def timeNow_def)
    ultimately show ?thesis by simp
  next
    case Thrown
    with c w3 show ?thesis by (simp add: invoke.simps Let_def timeNow_def)
  qed
qed

lemma wf_registry_afterExecuting:
  assumes "\<And>w. wf_registry w \<Longrightarrow> wf_registry (snd (call_handler h w))"
    and "wf_registry w" "s \<in> dom (MySlots w)"
  shows "wf_registry (afterExecuting s c h w)"
  using assms(2,3) by (simp add: afterExecuting.simps wf_registry_invoke [OF assms(1)])

lemma wf_registry_afterTimer:
  assumes "\<And>w. wf_registry w \<Longrightarrow> wf_registry (snd (call_handler h w))"
    and "wf_registry w" "s \<in> dom (MySlots w)"
  shows "wf_registry (afterTimer s c h w)"
  using assms(2,3)
  by (auto simp: afterTimer.simps wf_registry_afterExecuting [OF assms(1)] wf_registry_park
      split: option.splits pstate.splits)

lemma wf_registry_allocated: "wf_registry w \<Longrightarrow> wf_registry (allocated s w)"
  by (simp add: allocated_def Let_def wf_registry_getOrCreate)

lemma allocated_dom: "usable w s \<Longrightarrow> s \<in> dom (MySlots (allocated s w))"
  using getOrCreate_dom [of w s] by (simp add: allocated_def Let_def)

lemma wf_registry_installed:
  assumes "wf_registry w" "usable w s"
  shows "wf_registry (installed s m w)" "s \<in> dom (MySlots (installed s m w))"
proof -
  let ?w2 = "allocated s w"
  let ?w3 = "if m = Push then set_cancel (slot_context (slotInfo ?w2 s)) ?w2 else ?w2"
  have 2: "wf_registry ?w2" "s \<in> dom (MySlots ?w2)"
    using assms by (simp_all add: wf_registry_allocated allocated_dom)
  have 20: "0 < length (heap ?w2)" by (simp add: allocated_def Let_def)
  have 3: "wf_registry ?w3" "s \<in> dom (MySlots ?w3)" "length (heap ?w3) = length (heap ?w2)"
    using 2 by simp_all
  have "wf_registry (setSlot s ((slotInfo ?w3 s)\<lparr>slot_context := length (heap ?w2) - 1\<rparr>) ?w3)"
    by (rule wf_registry_install [OF 3(1,2)]) (use 20 3(3) in simp)
  then show "wf_registry (installed s m w)" by (simp add: installed_def Let_def)
  show "s \<in> dom (MySlots (installed s m w))" by (simp add: installed_def Let_def)
qed

lemma wf_registry_start:
  assumes H: "\<And>w. wf_registry w \<Longrightarrow> wf_registry (snd (call_handler h w))"
    and w: "wf_registry w"
  shows "wf_registry (start s m period h w)"
proof (cases "usable w s")
  case False
  have "wf_registry ((w\<lparr>heap := heap w @ [False]\<rparr>)\<lparr>rejected := rejected w @ [length (heap w)]\<rparr>)"
    using w by (intro wf_registry_upd)
  then show ?thesis by (simp add: start_unusable [OF False])
next
  case True
  note i = wf_registry_installed [OF w True]
  have t: "wf_registry ((installed s m' w)\<lparr>tasks := tasks (installed s m' w) @ [Task s c h wt]\<rparr>)"
    for m' c wt
    by (rule wf_registry_park [OF i])
  have a: "wf_registry (afterTimer s c h (installed s m' w))" for m' c
    by (rule wf_registry_afterTimer [OF H i])
  show ?thesis
    unfolding start_unfold [OF True] Let_def
    by (simp only: if_split) (intro conjI impI wf_registry_allocated w t a)
qed

lemma wf_registry_cancel: "wf_registry w \<Longrightarrow> cancel s w = Inr w' \<Longrightarrow> wf_registry w'"
  by (auto simp: cancel_def split_def Let_def wf_registry_getOrCreate split: option.splits)

lemma wf_registry_onCD: "wf_registry w \<Longrightarrow> wf_registry (snd (onCD s period w))"
  by (simp add: onCD_def split_def Let_def wf_registry_getOrCreate)

lemma wf_registry_call_handler: "wf_registry w \<Longrightarrow> wf_registry (snd (call_handler h w))"
proof (induction h arbitrary: w)
  case (Starts s m period h k)
  have "wf_registry (start s m period h w)"
    by (rule wf_registry_start [OF Starts.IH(1) Starts.prems])
  from Starts.IH(2) [OF this] show ?case by simp
next
  case (Cancels s k)
  show ?case
  proof (cases "cancel s w")
    case (Inl e)
    with Cancels.prems show ?thesis by simp
  next
    case (Inr w')
    from Cancels.IH [OF wf_registry_cancel [OF Cancels.prems Inr]] Inr show ?thesis by simp
  qed
next
  case (Asks s period k1 k2)
  from Asks.IH(1) [OF wf_registry_onCD [OF Asks.prems]]
    Asks.IH(2) [OF wf_registry_onCD [OF Asks.prems]]
  show ?case by simp
qed simp_all

lemma wf_registry_code:
  "wf_registry w \<Longrightarrow> s \<in> dom (MySlots w) \<Longrightarrow> wf_registry (invoke s c h w)"
  "wf_registry w \<Longrightarrow> s \<in> dom (MySlots w) \<Longrightarrow> wf_registry (afterExecuting s c h w)"
  "wf_registry w \<Longrightarrow> s \<in> dom (MySlots w) \<Longrightarrow> wf_registry (afterTimer s c h w)"
  "wf_registry w \<Longrightarrow> wf_registry (start s m period h w)"
  by (rule wf_registry_invoke wf_registry_afterExecuting wf_registry_afterTimer wf_registry_start,
      erule wf_registry_call_handler, assumption+)+

lemma fire_dom: "s \<in> dom (MySlots w) \<Longrightarrow> s \<in> dom (MySlots (fire t w))"
  unfolding fire_def by (rule ext_dom [OF ext_code(3)]) simp

lemma wf_registry_fire:
  assumes "wf_registry w" "t_slot t \<in> dom (MySlots w)"
  shows "wf_registry (fire t w)"
  unfolding fire_def
proof (rule wf_registry_code(3))
  show "wf_registry (w\<lparr>now := max (now w) (due_of t), tasks := remove1 t (tasks w)\<rparr>)"
    by (rule wf_registry_same [OF assms(1)]) (simp_all add: set_remove1_subset)
  show "t_slot t \<in> dom (MySlots (w\<lparr>now := max (now w) (due_of t), tasks := remove1 t (tasks w)\<rparr>))"
    using assms(2) by simp
qed

lemma wf_registry_fire_all:
  "wf_registry w \<Longrightarrow> \<forall>t\<in>set ts. t_slot t \<in> dom (MySlots w) \<Longrightarrow>
   wf_registry (foldl (\<lambda>w t. fire t w) w ts)"
proof (induction ts arbitrary: w)
  case Nil
  then show ?case by simp
next
  case (Cons t ts)
  have "wf_registry (fire t w)" using Cons.prems by (simp add: wf_registry_fire)
  moreover have "\<forall>u\<in>set ts. t_slot u \<in> dom (MySlots (fire t w))"
    using Cons.prems(2) by (simp add: fire_dom)
  ultimately show ?case using Cons.IH by simp
qed

lemma wf_registry_advance: "wf_registry w \<Longrightarrow> wf_registry (advance d w)"
  unfolding advance_def Let_def
  by (rule wf_registry_upd, rule wf_registry_fire_all) (auto simp: wf_registry_def)

lemma wf_registry_afterHandler:
  "wf_registry w \<Longrightarrow> s \<in> dom (MySlots w) \<Longrightarrow> wf_registry (afterHandler s c w)"
  by (simp add: afterHandler_def wf_registry_setSlot)

lemma resume_dom: "s \<in> dom (MySlots w) \<Longrightarrow> s \<in> dom (MySlots (resume ok t w))"
  using ext_dom [OF ext_code(2), of s w]
  by (auto simp: resume_def afterHandler_def split: wait.splits)

lemma wf_registry_resume:
  "wf_registry w \<Longrightarrow> t_slot t \<in> dom (MySlots w) \<Longrightarrow> wf_registry (resume ok t w)"
  by (auto simp: resume_def wf_registry_afterHandler wf_registry_code(2) split: wait.splits)

lemma wf_registry_resume_all:
  "wf_registry w \<Longrightarrow> \<forall>t\<in>set ts. t_slot t \<in> dom (MySlots w) \<Longrightarrow>
   wf_registry (foldl (\<lambda>w t. resume ok t w) w ts)"
proof (induction ts arbitrary: w)
  case Nil
  then show ?case by simp
next
  case (Cons t ts)
  have "wf_registry (resume ok t w)" using Cons.prems by (simp add: wf_registry_resume)
  moreover have "\<forall>u\<in>set ts. t_slot u \<in> dom (MySlots (resume ok t w))"
    using Cons.prems(2) by (simp add: resume_dom)
  ultimately show ?case using Cons.IH by simp
qed

lemma wf_registry_settle:
  assumes "wf_registry w"
  shows "wf_registry (settle p ok w)"
proof -
  let ?w1 = "w\<lparr>promises := (promises w)[p := (if ok then Resolved else Rejected)],
               tasks := filter (\<lambda>t. \<not> awaits p t) (tasks w)\<rparr>"
  have 1: "wf_registry ?w1"
    by (rule wf_registry_same [OF assms]) simp_all
  have "\<forall>t\<in>set (filter (awaits p) (tasks w)). t_slot t \<in> dom (MySlots ?w1)"
    using assms by (simp add: wf_registry_def)
  from wf_registry_resume_all [OF 1 this] assms show ?thesis
    by (simp add: settle_def Let_def)
qed

lemma wf_registry_step_cancel: "wf_registry w \<Longrightarrow> wf_registry (step (Cancel s) w)"
  by (cases "cancel s w") (simp_all add: wf_registry_cancel)

lemma wf_registry_step: "wf_registry w \<Longrightarrow> wf_registry (step e w)"
  by (cases e)
     (simp_all add: wf_registry_code(4) wf_registry_step_cancel wf_registry_onCD wf_registry_advance
        wf_registry_settle del: step.simps(2))

lemma wf_registry_run: "wf_registry w \<Longrightarrow> wf_registry (run evs w)"
  by (induction evs arbitrary: w) (simp_all add: wf_registry_step del: step.simps)

lemma wf_slots_run: "wf_slots (run evs init)"
  using wf_registry_run [OF wf_registry_init] by (simp add: wf_registry_def)

lemma Inv_wf_slots: "Inv w \<Longrightarrow> wf_slots w"
  by (simp add: Inv_def)

subsection \<open>Admission with an effective period of zero\<close>

lemma flag_heap_snoc_False: "flag (w\<lparr>heap := heap w @ [False]\<rparr>) = flag w"
  by (rule ext) (auto simp: flag_def nth_append)

lemma allocated_flag: "flag (allocated s w) = flag (snd (getOrCreateSlotInfo s w))"
  by (simp add: allocated_def Let_def flag_heap_snoc_False)

lemma getOrCreate_new_flag:
  "s \<notin> dom (MySlots w) \<Longrightarrow> \<not> inherited s \<Longrightarrow>
   flag (snd (getOrCreateSlotInfo s w))
     (slot_context (slotInfo (snd (getOrCreateSlotInfo s w)) s))"
  by (auto simp: getOrCreateSlotInfo_def flag_def Let_def slotInfo_def split: option.splits)

lemma getOrCreate_bound:
  assumes "wf_slots w" "usable w s"
  shows "slot_context (slotInfo (snd (getOrCreateSlotInfo s w)) s)
           < length (heap (snd (getOrCreateSlotInfo s w)))"
proof (cases "s \<in> dom (MySlots w)")
  case True
  with assms(1) show ?thesis by (simp add: getOrCreate_old wf_slots_def)
next
  case False
  with assms(2) have "\<not> inherited s" by (auto simp: usable_def)
  with False show ?thesis
    by (auto simp: getOrCreateSlotInfo_def Let_def slotInfo_def split: option.splits)
qed

lemma installed_context:
  "slot_context (slotInfo (installed s m w) s) = length (heap (snd (getOrCreateSlotInfo s w)))"
  by (simp add: installed_def allocated_def Let_def)

lemma installed_flag_new:
  assumes "slot_context (slotInfo (snd (getOrCreateSlotInfo s w)) s)
             < length (heap (snd (getOrCreateSlotInfo s w)))"
  shows "\<not> flag (installed s m w) (length (heap (snd (getOrCreateSlotInfo s w))))"
  using assms
  by (auto simp: installed_def allocated_def Let_def flag_def nth_append set_cancel_def
        nth_list_update)

lemma start_zero:
  assumes "wf_slots w" "executing (slotInfo w s) = None" "usable w s"
    and adm: "m = Push \<or> s \<notin> dom (MySlots w) \<or> flag w (slot_context (slotInfo w s))"
    and zero: "(m \<noteq> Cooldown \<and> period = 0) \<or>
               (m = Cooldown \<and> timeToNext (Some (slotInfo w s)) period w \<le> 0)"
  shows "start s m period h w =
           invoke s (length (heap (snd (getOrCreateSlotInfo s w)))) h
             (installed s (if m = Cooldown then Ignore else m) w)"
proof -
  define mm where "mm = (if m = Cooldown then Ignore else m)"
  define c where "c = length (heap (snd (getOrCreateSlotInfo s w)))"
  define si where "si = slotInfo (allocated s w) s"
  have lt: "lastTriggered si = lastTriggered (slotInfo w s)"
    by (simp add: si_def allocated_fields)
  have eff: "effective m period (Some si) (allocated s w) = (mm, 0)"
    using zero lt
    by (auto simp: effective_def Let_def timeToNext_def timeNow_def allocated_fields mm_def)
  have admitted: "\<not> (mm \<noteq> Push \<and> \<not> flag (allocated s w) (slot_context si))"
  proof (cases "s \<in> dom (MySlots w)")
    case True
    with adm show ?thesis
      by (auto simp: allocated_flag mm_def si_def allocated_slotInfo getOrCreate_old)
  next
    case False
    with assms(3) have "\<not> inherited s" by (auto simp: usable_def)
    from getOrCreate_new_flag [OF False this] show ?thesis
      by (simp add: allocated_flag si_def allocated_slotInfo)
  qed
  have nf: "\<not> flag (installed s mm w) c"
    unfolding c_def by (rule installed_flag_new [OF getOrCreate_bound [OF assms(1,3)]])
  have c: "length (heap (allocated s w)) - 1 = c" by (simp add: allocated_def Let_def c_def)
  have "start s m period h w = afterTimer s c h (installed s mm w)"
    using admitted unfolding start_unfold [OF assms(3)] Let_def si_def [symmetric] eff c by auto
  also have "\<dots> = invoke s c h (installed s mm w)"
    using nf assms(2) by (simp add: afterTimer.simps afterExecuting.simps installed_fields)
  finally show ?thesis by (simp add: c_def mm_def)
qed

lemma installed_promises: "promises (installed s m w) = promises w"
  by (simp add: installed_def allocated_def Let_def getOrCreate_fields)

lemma installed_heap_length:
  "length (heap (installed s m w)) = Suc (length (heap (snd (getOrCreateSlotInfo s w))))"
  by (simp add: installed_def allocated_def Let_def)

lemma start_zero_any:
  assumes "wf_slots w" "executing (slotInfo w s) = None" "usable w s"
    and "m = Push \<or> s \<notin> dom (MySlots w) \<or> flag w (slot_context (slotInfo w s))"
    and "(m \<noteq> Cooldown \<and> period = 0) \<or>
         (m = Cooldown \<and> timeToNext (Some (slotInfo w s)) period w \<le> 0)"
  shows "take (Suc (length (calls w))) (calls (start s m period h w)) =
           calls w @ [(s, length (heap (snd (getOrCreateSlotInfo s w))), now w)]"
    "now (start s m period h w) = now w"
  using invoke_any(2,3) [where s = s and c = "length (heap (snd (getOrCreateSlotInfo s w)))"
      and h = h and w = "installed s (if m = Cooldown then Ignore else m) w"]
  by (simp_all add: start_zero [OF assms] installed_fields)

lemma start_zero_effect:
  assumes "wf_slots w" "executing (slotInfo w s) = None" "usable w s"
    and "m = Push \<or> s \<notin> dom (MySlots w) \<or> flag w (slot_context (slotInfo w s))"
    and "(m \<noteq> Cooldown \<and> period = 0) \<or>
         (m = Cooldown \<and> timeToNext (Some (slotInfo w s)) period w \<le> 0)"
    and "plain h"
  shows "calls (start s m period h w) =
           calls w @ [(s, length (heap (snd (getOrCreateSlotInfo s w))), now w)]"
    "tasks (start s m period h w) =
       tasks w @ (if h = Async
                  then [Task s (length (heap (snd (getOrCreateSlotInfo s w)))) h
                          (AtHandler (length (promises w)))]
                  else [])"
    "length (heap (start s m period h w)) = Suc (length (heap (snd (getOrCreateSlotInfo s w))))"
    "h \<noteq> Async \<Longrightarrow> executing (slotInfo (start s m period h w) s) = None"
    "now (start s m period h w) = now w"
  using assms(2,6)
  by (simp_all add: start_zero [OF assms(1-5)] invoke_calls invoke_tasks invoke_heap_length
        invoke_slotInfo invoke_now installed_fields installed_promises installed_heap_length)

lemma zero_pushes_idle:
  "wf_registry w \<Longrightarrow> \<not> inherited s \<Longrightarrow> plain h \<Longrightarrow>
   \<forall>k<n. executing (slotInfo (run (replicate k (Start s Push 0 h)) w) s) = None \<Longrightarrow>
   calls (run (replicate n (Start s Push 0 h)) w) =
     calls w @ map (\<lambda>i. (s, length (heap (snd (getOrCreateSlotInfo s w))) + i, now w)) [0..<n]"
proof (induction n arbitrary: w)
  case 0
  then show ?case by simp
next
  case (Suc n)
  let ?w = "start s Push 0 h w"
  let ?c = "length (heap (snd (getOrCreateSlotInfo s w)))"
  from Suc.prems(4) have e0: "executing (slotInfo w s) = None" by force
  have ws: "wf_slots w" using Suc.prems(1) by (simp add: wf_registry_def)
  have us: "usable w s" using Suc.prems(2) by (rule usableI)
  note e = start_zero_effect [OF ws e0 us _ _ Suc.prems(3), of Push 0, simplified]
  have I: "wf_registry ?w" by (rule wf_registry_code(4) [OF Suc.prems(1)])
  have d: "s \<in> dom (MySlots ?w)"
    using Suc.prems(3)
    by (simp add: start_zero [OF ws e0 us, of Push 0, simplified] invoke_dom)
  have c: "length (heap (snd (getOrCreateSlotInfo s ?w))) = Suc ?c"
    using d e(3) by (simp add: getOrCreate_old)
  have nx: "\<forall>k<n. executing (slotInfo (run (replicate k (Start s Push 0 h)) ?w) s) = None"
  proof (intro allI impI)
    fix k assume "k < n"
    then have "Suc k < Suc n" by simp
    from Suc.prems(4) [rule_format, OF this]
    show "executing (slotInfo (run (replicate k (Start s Push 0 h)) ?w) s) = None" by simp
  qed
  have "map (\<lambda>i. (s, ?c + i, now w)) [0..<Suc n] =
        (s, ?c, now w) # map (\<lambda>i. (s, Suc ?c + i, now w)) [0..<n]"
    by (simp add: upt_conv_Cons map_Suc_upt [symmetric] del: upt_Suc)
  with Suc.IH [OF I Suc.prems(2,3) nx] e(1,5) c
  show ?case by (simp del: upt_Suc replicate_Suc add: replicate_Suc [of n])
qed

lemma zero_pushes_sync_idle:
  "wf_registry w \<Longrightarrow> \<not> inherited s \<Longrightarrow> executing (slotInfo w s) = None \<Longrightarrow>
   plain h \<Longrightarrow> h \<noteq> Async \<Longrightarrow>
   executing (slotInfo (run (replicate k (Start s Push 0 h)) w) s) = None"
proof (induction k arbitrary: w)
  case 0
  then show ?case by simp
next
  case (Suc k)
  have ws: "wf_slots w" using Suc.prems(1) by (simp add: wf_registry_def)
  have us: "usable w s" using Suc.prems(2) by (rule usableI)
  note e = start_zero_effect(4) [OF ws Suc.prems(3) us _ _ Suc.prems(4), of Push 0, simplified]
  from Suc.IH [OF wf_registry_code(4) [OF Suc.prems(1)] Suc.prems(2) e [OF Suc.prems(5)]
      Suc.prems(4,5)]
  show ?case by simp
qed

subsection \<open>Queries, dropped calls and scheduled calls\<close>

lemma onCD_fst:
  "fst (onCD s period w) = (0 < nullish (lastTriggered (slotInfo w s)) (- period) + period - now w)"
proof (cases "usable w s")
  case True
  then show ?thesis
    by (auto simp: onCD_def split_def Let_def timeToNext_def timeNow_def getOrCreate_fst
        getOrCreate_slotInfo getOrCreate_fields)
next
  case False
  then have "MySlots w s = None" by (simp add: usable_def)
  then show ?thesis
    using getOrCreate_unusable [OF False]
    by (auto simp: onCD_def Let_def timeToNext_def timeNow_def slotInfo_def)
qed

lemma start_dropped:
  assumes "s \<in> dom (MySlots w)" "\<not> flag w (slot_context (slotInfo w s))" "m \<noteq> Push"
  shows "start s m period h w = w\<lparr>heap := heap w @ [False]\<rparr>"
proof -
  have us: "usable w s" using assms(1) by (auto simp: usable_def)
  have a: "allocated s w = w\<lparr>heap := heap w @ [False]\<rparr>"
    using assms(1) by (simp add: allocated_def Let_def getOrCreate_old)
  have "fst (effective m period (Some (slotInfo (allocated s w) s)) (allocated s w)) \<noteq> Push"
    using assms(3) by (simp add: effective_def Let_def)
  moreover have "\<not> flag (allocated s w) (slot_context (slotInfo (allocated s w) s))"
    using assms(1,2) by (simp add: allocated_flag allocated_slotInfo getOrCreate_old)
  ultimately show ?thesis using a by (simp add: start_unfold [OF us] Let_def)
qed

lemma superseded_flagged:
  assumes "Inv w" "t \<in> set (tasks w)" "t_context t \<noteq> slot_context (slotInfo w (t_slot t))"
  shows "flag w (t_context t)"
proof -
  from assms(1) have "current w" by (simp add: Inv_def)
  with assms(2,3) show ?thesis by (auto simp: current_def)
qed

lemma start_push_flags_old:
  assumes "wf_slots w" "s \<in> dom (MySlots w)" "0 < period"
  shows "flag (start s Push period h w) (slot_context (slotInfo w s))"
proof -
  have us: "usable w s" using assms(2) by (auto simp: usable_def)
  from assms(1,2) have "slot_context (slotInfo w s) < length (heap w)"
    unfolding wf_slots_def by blast
  then show ?thesis using assms(2,3)
    by (simp add: start_unfold [OF us] Let_def effective_def installed_def allocated_def
          getOrCreate_old flag_def nth_append set_cancel_def)
qed

lemma start_cooldown_eq:
  "start s Cooldown period h w =
   start s Ignore (max 0 (nullish (lastTriggered (slotInfo w s)) (- period) + period - now w)) h w"
proof (cases "usable w s")
  case True
  show ?thesis
    by (simp add: start_unfold [OF True] Let_def effective_def timeToNext_def timeNow_def
          allocated_fields max_def)
next
  case False
  then show ?thesis by (simp add: start_unusable)
qed

lemma start_ignore_timer:
  assumes "MySlots w s \<noteq> None" "flag w (slot_context (slotInfo w s))" "0 < period"
    "period \<le> 2147483647"
  shows "tasks (start s Ignore period h w) = tasks w @ [Task s (length (heap w)) h (AtTimer (now w + period))]"
    "calls (start s Ignore period h w) = calls w"
proof -
  from assms(1) have d: "s \<in> dom (MySlots w)" by (simp add: domIff)
  then have us: "usable w s" by (auto simp: usable_def)
  have a: "flag (allocated s w) (slot_context (slotInfo (allocated s w) s))"
    using assms(2) d by (simp add: allocated_flag allocated_slotInfo getOrCreate_old)
  have c: "length (heap (allocated s w)) - 1 = length (heap w)"
    using d by (simp add: allocated_def Let_def getOrCreate_old)
  show "tasks (start s Ignore period h w) = tasks w @ [Task s (length (heap w)) h (AtTimer (now w + period))]"
    "calls (start s Ignore period h w) = calls w"
    using a assms(3,4) c
    by (simp_all add: start_unfold [OF us] Let_def effective_def installed_fields
          setTimeout_delay_def)
qed

section \<open>The claims of the specification\<close>

subsection \<open>C1: executions of one slot never overlap\<close>

text \<open>
  As long as no handler calls back into the registry, the executions of a slot do not
  overlap.  In every state that such a history reaches, if an invocation on the slot is in
  flight (its promise \<open>p\<close> is pending), then it is the only one, it is the promise
  recorded in \<open>executing\<close>, and every event other than the settling of \<open>p\<close> (a new
  \<open>start\<close> on any slot in any mode, a \<open>cancel\<close>, a query, timers that fire, another
  promise that settles) leaves the slot's invocation log unchanged and \<open>p\<close> in flight:
  the other calls on the slot wait.  When \<open>p\<close> settles, the waiting calls re-check their
  flag, and at most one of them invokes its handler.
\<close>

lemma plain_handlers_exclusive:
  assumes "\<forall>e\<in>set evs. plain_event e" and "in_flight (run evs init) slot p"
  shows "(\<forall>q. in_flight (run evs init) slot q \<longrightarrow> q = p)
       \<and> executing (slotInfo (run evs init) slot) = Some p
       \<and> (\<forall>e. plain_event e \<and> (\<forall>ok. e \<noteq> Settle p ok) \<longrightarrow>
              calls_on slot (step e (run evs init)) = calls_on slot (run evs init)
              \<and> in_flight (step e (run evs init)) slot p)
       \<and> (\<forall>ok. length (calls_on slot (settle p ok (run evs init)))
                 \<le> Suc (length (calls_on slot (run evs init))))"
proof -
  have I: "Inv (run evs init)" by (rule Inv_run [OF Inv_init assms(1)])
  note e = in_flight_executing(1) [OF I]
  have "\<forall>q. in_flight (run evs init) slot q \<longrightarrow> q = p"
    using e [OF assms(2)] e by fastforce
  with e [OF assms(2)] step_in_flight [OF I assms(2)] settle_calls_on [OF I] show ?thesis
    by blast
qed

text \<open>
  Claim C1 says that no two handler invocations of a slot ever overlap, and the source
  says so too (lines 38 and 113).  The code calls the handler at line 181 and records its
  promise in \<open>executing\<close> only at line 184, so a handler that itself calls
  \<open>Slots.start\<close> on its slot with period 0 gets the second handler invoked inside the
  first invocation.  Below, the handler of the first call starts \<open>''foo''\<close> again with an
  async handler and then returns a promise of its own.  After the one call of \<open>start\<close>
  two invocations are logged, both promises are pending and both calls await their
  handler at line 185; \<open>executing\<close> holds only the outer promise 1, the inner promise 0
  is overwritten.  When the inner promise resolves, line 188 deletes \<open>executing\<close> while
  the outer execution is still in flight, and the next call of \<open>start\<close> invokes a third
  handler at once.
\<close>

theorem reentrant_handler_overlaps:
  "calls (run [Start ''foo'' Push 0 (Starts ''foo'' Push 0 Async Async)] init)
     = [(''foo'', 1, 0), (''foo'', 2, 0)]
   \<and> tasks (run [Start ''foo'' Push 0 (Starts ''foo'' Push 0 Async Async)] init)
     = [Task ''foo'' 2 Async (AtHandler 0),
        Task ''foo'' 1 (Starts ''foo'' Push 0 Async Async) (AtHandler 1)]
   \<and> promises (run [Start ''foo'' Push 0 (Starts ''foo'' Push 0 Async Async)] init)
     = [Pending, Pending]
   \<and> executing (slotInfo (run [Start ''foo'' Push 0 (Starts ''foo'' Push 0 Async Async)] init)
        ''foo'') = Some 1
   \<and> executing (slotInfo (run [Start ''foo'' Push 0 (Starts ''foo'' Push 0 Async Async),
        Settle 0 True] init) ''foo'') = None
   \<and> promises (run [Start ''foo'' Push 0 (Starts ''foo'' Push 0 Async Async),
        Settle 0 True, Start ''foo'' Push 0 Sync] init) = [Resolved, Pending]
   \<and> tasks (run [Start ''foo'' Push 0 (Starts ''foo'' Push 0 Async Async),
        Settle 0 True, Start ''foo'' Push 0 Sync] init)
     = [Task ''foo'' 1 (Starts ''foo'' Push 0 Async Async) (AtHandler 1)]
   \<and> calls (run [Start ''foo'' Push 0 (Starts ''foo'' Push 0 Async Async),
        Settle 0 True, Start ''foo'' Push 0 Sync] init)
     = [(''foo'', 1, 0), (''foo'', 2, 0), (''foo'', 3, 0)]"
  by code_simp

subsection \<open>C2: a handler that fails\<close>

text \<open>
  As the claim states it, the registry cleans up after a failing handler, so that later
  ignore-mode calls are admitted.  It does not: \<open>start\<close> has no \<open>finally\<close>.  After a
  handler that throws, the call's context is still not cancelled and the next ignore-mode
  call is dropped; after a handler whose promise rejects, \<open>executing\<close> still holds the
  rejected promise.
\<close>

theorem wedged_after_failure:
  "calls (run [Start ''foo'' Ignore 0 Throwing, Start ''foo'' Ignore 0 Sync] init) = [(''foo'', 1, 0)]
   \<and> rejected (run [Start ''foo'' Ignore 0 Throwing] init) = [1]
   \<and> \<not> flag (run [Start ''foo'' Ignore 0 Throwing] init) 1
   \<and> rejected (run [Start ''foo'' Ignore 0 Async, Settle 0 False] init) = [1]
   \<and> executing (slotInfo (run [Start ''foo'' Ignore 0 Async, Settle 0 False] init) ''foo'') = Some 0
   \<and> \<not> flag (run [Start ''foo'' Ignore 0 Async, Settle 0 False] init) 1"
  by code_simp

text \<open>
  Claim C2, amended.  When the handler throws, the error leaves \<open>start\<close> (the call is
  recorded as rejected) and the trigger time has been written, but the flags of all
  contexts and \<open>executing\<close> are as before the invocation; when the handler's promise
  rejects, the awaiting call ends in the error and nothing else changes, so \<open>executing\<close>
  keeps the rejected promise.  In both cases, while the failed call's context is the
  slot's current one, every later ignore-mode or cooldown-mode call on the slot is
  dropped.
\<close>

theorem failing_handler_no_cleanup:
  "(\<not> flag w c \<longrightarrow>
      rejected (afterExecuting slot c Throwing w) = rejected w @ [c]
    \<and> lastTriggered (slotInfo (afterExecuting slot c Throwing w) slot)
        = Some (max (nullish (lastTriggered (slotInfo w slot)) (now w)) (now w))
    \<and> flag (afterExecuting slot c Throwing w) = flag w
    \<and> executing (slotInfo (afterExecuting slot c Throwing w) slot) = executing (slotInfo w slot)
    \<and> (slot_context (slotInfo w slot) = c \<and> mode \<noteq> Push \<longrightarrow>
         calls (start slot mode period h (afterExecuting slot c Throwing w))
           = calls (afterExecuting slot c Throwing w)
       \<and> tasks (start slot mode period h (afterExecuting slot c Throwing w))
           = tasks (afterExecuting slot c Throwing w)))
   \<and> resume False t w = w\<lparr>rejected := rejected w @ [t_context t]\<rparr>
   \<and> (MySlots w slot \<noteq> None \<and> slot_context (slotInfo w slot) = t_context t
        \<and> \<not> flag w (t_context t) \<and> mode \<noteq> Push \<longrightarrow>
         calls (start slot mode period h (resume False t w)) = calls (resume False t w)
       \<and> tasks (start slot mode period h (resume False t w)) = tasks (resume False t w))"
proof -
  let ?w = "afterExecuting slot c Throwing w"
  have a: "rejected ?w = rejected w @ [c]"
    "lastTriggered (slotInfo ?w slot)
        = Some (max (nullish (lastTriggered (slotInfo w slot)) (now w)) (now w))"
    "flag ?w = flag w"
    "executing (slotInfo ?w slot) = executing (slotInfo w slot)"
    "slot \<in> dom (MySlots ?w)" "slot_context (slotInfo ?w slot) = slot_context (slotInfo w slot)"
    if "\<not> flag w c"
    using that
    by (simp_all add: afterExecuting.simps invoke_rejected invoke_slotInfo invoke_flag fun_eq_iff
          invoke_dom)
  have b: "calls (start slot mode period h ?w) = calls ?w \<and> tasks (start slot mode period h ?w) = tasks ?w"
    if "\<not> flag w c" "slot_context (slotInfo w slot) = c" "mode \<noteq> Push"
    using that a [OF that(1)] by (simp add: start_dropped)
  let ?v = "resume False t w"
  have r: "?v = w\<lparr>rejected := rejected w @ [t_context t]\<rparr>" by (simp add: resume_def)
  have c: "calls (start slot mode period h ?v) = calls ?v \<and> tasks (start slot mode period h ?v) = tasks ?v"
    if "MySlots w slot \<noteq> None" "slot_context (slotInfo w slot) = t_context t"
      "\<not> flag w (t_context t)" "mode \<noteq> Push"
    using that by (simp add: r start_dropped domIff)
  show ?thesis using a b c r by blast
qed

theorem failing_handler_no_cleanup_witness:
  "\<not> flag (run [Start ''foo'' Ignore 1000 Sync] init) 1
   \<and> slot_context (slotInfo (run [Start ''foo'' Ignore 1000 Sync] init) ''foo'') = 1
   \<and> Ignore \<noteq> Push
   \<and> rejected (afterExecuting ''foo'' 1 Throwing (run [Start ''foo'' Ignore 1000 Sync] init)) = [1]
   \<and> calls (start ''foo'' Ignore 0 Sync
              (afterExecuting ''foo'' 1 Throwing (run [Start ''foo'' Ignore 1000 Sync] init)))
       = calls (afterExecuting ''foo'' 1 Throwing (run [Start ''foo'' Ignore 1000 Sync] init))
   \<and> MySlots (run [Start ''foo'' Ignore 0 Async] init) ''foo'' \<noteq> None
   \<and> calls (start ''foo'' Cooldown 0 Sync
              (resume False (Task ''foo'' 1 Async (AtHandler 0))
                 (run [Start ''foo'' Ignore 0 Async] init)))
       = calls (resume False (Task ''foo'' 1 Async (AtHandler 0))
                 (run [Start ''foo'' Ignore 0 Async] init))"
proof -
  let ?w = "run [Start ''foo'' Ignore 1000 Sync] init"
  let ?v = "run [Start ''foo'' Ignore 0 Async] init"
  let ?t = "Task ''foo'' 1 Async (AtHandler 0)"
  have h: "\<not> flag ?w 1" "slot_context (slotInfo ?w ''foo'') = 1" "rejected ?w = []"
    by code_simp+
  have g: "MySlots ?v ''foo'' \<noteq> None" "slot_context (slotInfo ?v ''foo'') = t_context ?t"
    "\<not> flag ?v (t_context ?t)"
    by code_simp+
  note a = failing_handler_no_cleanup [where w = ?w and c = 1 and slot = "''foo''"
      and mode = Ignore and period = 0 and h = Sync, THEN conjunct1]
  note b = failing_handler_no_cleanup [where w = ?v and t = ?t and slot = "''foo''"
      and mode = Cooldown and period = 0 and h = Sync, THEN conjunct2, THEN conjunct2]
  from a h b g show ?thesis by simp
qed

subsection \<open>C3: coalescing of pushes\<close>

text \<open>
  As the claim states it, \<open>N\<close> consecutive push-mode calls give one invocation for every
  period.  With period 0 each call invokes its handler at once: two calls, two
  invocations.
\<close>

theorem two_pushes_two_calls:
  "calls (run [Start ''foo'' Push 0 Sync, Start ''foo'' Push 0 Sync] init)
     = [(''foo'', 1, 0), (''foo'', 2, 0)]"
  by code_simp

text \<open>
  Claim C3, amended.  For every period from 1 to \<open>2^31 - 1\<close> milliseconds, every slot
  name that \<open>MySlots\<close> does not inherit, and every \<open>N \<ge> 1\<close>: on a slot that records no
  execution, in a registry whose handlers so far did not call back into it, \<open>N\<close>
  push-mode calls with that period, each made less than \<open>period\<close> milliseconds after the
  one before, invoke no handler of the slot while they are made nor in the \<open>period\<close>
  milliseconds after the last of them, and exactly one, that of the last call, when
  \<open>period\<close> milliseconds have passed since the last call.  Every suspended call of the
  slot other than the last one is cancelled, each push marks the context that was
  current as cancelled, and the context it installs is fresh.
\<close>

theorem push_coalescing:
  assumes "0 < period" and "period \<le> 2147483647" and "\<not> inherited slot"
    and "\<forall>e\<in>set evs. plain_event e"
    and "\<forall>x\<in>set xs. int (snd x) < period \<and> plain (fst x)" and "plain h"
    and "w = run evs init" and "executing (slotInfo w slot) = None"
    and "w1 = run (pushes slot period xs @ [Start slot Push period h]) w"
  shows "calls_on slot w1 = calls_on slot w
       \<and> (\<forall>d. int d < period \<longrightarrow> calls_on slot (advance d w1) = calls_on slot w)
       \<and> calls_on slot (advance (nat period) w1)
           = calls_on slot w @ [(slot, slot_context (slotInfo w1 slot), now w1 + period)]
       \<and> (\<forall>t\<in>set (tasks w1). t_slot t = slot \<and> t_context t \<noteq> slot_context (slotInfo w1 slot)
             \<longrightarrow> flag w1 (t_context t))
       \<and> (MySlots w slot \<noteq> None \<longrightarrow>
             flag (start slot Push period h w) (slot_context (slotInfo w slot)))
       \<and> (\<forall>t\<in>set (tasks w). t_context t \<noteq> slot_context (slotInfo (start slot Push period h w) slot))"
proof -
  have I: "Inv w" unfolding assms(7) by (rule Inv_run [OF Inv_init assms(4)])
  have us: "usable w slot" using assms(3) by (rule usableI)
  note aux = coalesce_aux [OF I assms(8,1,5,2,3,6,9)]
  have "\<forall>e\<in>set (pushes slot period xs). plain_event e"
    using assms(5) by (induction xs) auto
  then have "\<forall>e\<in>set (pushes slot period xs @ [Start slot Push period h]). plain_event e"
    using assms(6) by simp
  then have I1: "Inv w1" unfolding assms(9) by (rule Inv_run [OF I])
  have s: "\<forall>t\<in>set (tasks w1). t_slot t = slot \<and> t_context t \<noteq> slot_context (slotInfo w1 slot)
             \<longrightarrow> flag w1 (t_context t)"
    using superseded_flagged [OF I1] by blast
  have f: "MySlots w slot \<noteq> None \<longrightarrow>
             flag (start slot Push period h w) (slot_context (slotInfo w slot))"
    using start_push_flags_old [OF Inv_wf_slots [OF I] _ assms(1)] by (simp add: domIff)
  have "\<forall>t\<in>set (tasks w). t_context t < length (heap w)"
    using I unfolding Inv_def wf_tasks_def by blast
  moreover have "length (heap w) \<le> length (heap (snd (getOrCreateSlotInfo slot w)))"
    by (auto simp: getOrCreateSlotInfo_def Let_def split: option.splits)
  ultimately have "\<forall>t\<in>set (tasks w). t_context t < length (heap (snd (getOrCreateSlotInfo slot w)))"
    by (meson less_le_trans)
  then have n: "\<forall>t\<in>set (tasks w).
      t_context t \<noteq> slot_context (slotInfo (start slot Push period h w) slot)"
    using assms(1,2) us by (auto simp: start_push_timer)
  have e: "\<forall>d. int d < period \<longrightarrow> calls_on slot (advance d w1) = calls_on slot w"
    using aux(3) by simp
  show ?thesis
    by (intro conjI) (rule aux(1), rule e, rule aux(2), rule s, rule f, rule n)
qed

theorem push_coalescing_witness:
  "calls_on ''foo''
     (advance 1000 (run (pushes ''foo'' 1000 [(Sync, 100), (Sync, 100)] @ [Start ''foo'' Push 1000 Sync]) init))
   = [(''foo'', 3, 1200)]
   \<and> calls_on ''foo''
     (advance 999 (run (pushes ''foo'' 1000 [(Sync, 100), (Sync, 100)] @ [Start ''foo'' Push 1000 Sync]) init))
   = []"
proof -
  let ?w1 = "run (pushes ''foo'' 1000 [(Sync, 100), (Sync, 100)] @ [Start ''foo'' Push 1000 Sync]) init"
  have h: "(0::int) < 1000" "(1000::int) \<le> 2147483647" "\<not> inherited ''foo''"
    "\<forall>e\<in>set []. plain_event e"
    "\<forall>x\<in>set [(Sync, 100::nat), (Sync, 100)]. int (snd x) < 1000 \<and> plain (fst x)"
    "plain Sync" "init = run [] init" "executing (slotInfo init ''foo'') = None"
    by (simp_all add: init_def slotInfo_def inherited_def)
  have v: "slot_context (slotInfo ?w1 ''foo'') = 3" "now ?w1 = 200" "calls_on ''foo'' init = []"
    by code_simp+
  from push_coalescing [OF h refl] v show ?thesis by simp
qed

subsection \<open>C4: an ignore-mode call on a slot that is not idle\<close>

text \<open>
  Claim C4.  An ignore-mode or cooldown-mode call on a slot whose current context is not
  cancelled returns without invoking a handler and without a change that the slot shows:
  the table of slots, the suspended calls, the invocation log, the flag of every context
  and every answer of \<open>onCD\<close> are those of the world before the call.  The world itself
  differs only by the context object that \<open>start\<close> allocates before it decides, to which
  nothing refers.
\<close>

theorem ignore_dropped:
  assumes "MySlots w slot \<noteq> None" and "\<not> flag w (slot_context (slotInfo w slot))"
    and "mode \<noteq> Push"
  shows "start slot mode period h w = w\<lparr>heap := heap w @ [False]\<rparr>
       \<and> calls (start slot mode period h w) = calls w
       \<and> MySlots (start slot mode period h w) = MySlots w
       \<and> tasks (start slot mode period h w) = tasks w
       \<and> flag (start slot mode period h w) = flag w
       \<and> (\<forall>s p. fst (onCD s p (start slot mode period h w)) = fst (onCD s p w))"
proof -
  from assms(1) have "slot \<in> dom (MySlots w)" by (simp add: domIff)
  from start_dropped [OF this assms(2,3)] show ?thesis
    by (simp add: flag_heap_snoc_False onCD_fst)
qed

theorem ignore_dropped_witness:
  "MySlots (run [Start ''foo'' Ignore 1000 Sync] init) ''foo'' \<noteq> None
   \<and> \<not> flag (run [Start ''foo'' Ignore 1000 Sync] init)
        (slot_context (slotInfo (run [Start ''foo'' Ignore 1000 Sync] init) ''foo''))
   \<and> Cooldown \<noteq> Push
   \<and> tasks (start ''foo'' Cooldown 500 Sync (run [Start ''foo'' Ignore 1000 Sync] init))
       = tasks (run [Start ''foo'' Ignore 1000 Sync] init)
   \<and> calls (start ''foo'' Cooldown 500 Sync (run [Start ''foo'' Ignore 1000 Sync] init)) = []"
proof -
  have h: "MySlots (run [Start ''foo'' Ignore 1000 Sync] init) ''foo'' \<noteq> None"
    "\<not> flag (run [Start ''foo'' Ignore 1000 Sync] init)
        (slot_context (slotInfo (run [Start ''foo'' Ignore 1000 Sync] init) ''foo''))"
    "Cooldown \<noteq> Push"
    by code_simp+
  have c: "calls (run [Start ''foo'' Ignore 1000 Sync] init) = []" by code_simp
  from ignore_dropped [OF h, of 500 Sync] h c show ?thesis by simp
qed

subsection \<open>C5: cooldown is ignore with a recomputed period\<close>

text \<open>
  As the claim states it, a cooldown-mode call on a slot that is off cooldown fires at
  once, and one on a slot that is on cooldown is scheduled at the cooldown boundary, for
  every period.  A call that is admitted while an execution of the slot is in flight is
  parked at line 170 instead: below, the slot is off cooldown 1500 milliseconds after
  its handler started, the handler still runs and \<open>cancel\<close> has marked its context.  And
  a call whose recomputed period is above \<open>2^31 - 1\<close> is not scheduled at the boundary,
  because \<open>setTimeout\<close> fires it after one millisecond: below, the second invocation
  comes 1 millisecond after the first, with a cooldown of 3000000000 milliseconds.
\<close>

theorem cooldown_parked_or_early:
  "calls (run [Start ''foo'' Cooldown 1000 Async, Cancel ''foo'', Advance 1500,
               Start ''foo'' Cooldown 1000 Sync] init) = [(''foo'', 1, 0)]
   \<and> tasks (run [Start ''foo'' Cooldown 1000 Async, Cancel ''foo'', Advance 1500,
               Start ''foo'' Cooldown 1000 Sync] init)
       = [Task ''foo'' 1 Async (AtHandler 0), Task ''foo'' 2 Sync (AtExecuting 0)]
   \<and> tasks (run [Start ''foo'' Push 0 Sync, Start ''foo'' Cooldown 3000000000 Sync] init)
       = [Task ''foo'' 2 Sync (AtTimer 1)]
   \<and> calls (run [Start ''foo'' Push 0 Sync, Start ''foo'' Cooldown 3000000000 Sync,
               Advance 1] init) = [(''foo'', 1, 0), (''foo'', 2, 1)]"
  by code_simp

text \<open>
  Claim C5, amended.  A cooldown-mode call is the ignore-mode call with the period
  \<open>max(0, (lastTriggered ?? -P) + P - now)\<close>, for every slot, period and handler.  On an
  idle slot that is on cooldown, with a recomputed period of at most \<open>2^31 - 1\<close>, the call
  is scheduled for \<open>lastTriggered + P\<close> exactly.  On an idle slot that is off cooldown and
  records no execution, with a name that \<open>MySlots\<close> does not inherit, the handler is
  invoked at once: the invocation is the next entry of the log, whatever the handler
  does.
\<close>

theorem cooldown_is_ignore:
  "start slot Cooldown period h w =
     start slot Ignore (max 0 (nullish (lastTriggered (slotInfo w slot)) (- period) + period - now w)) h w
   \<and> (MySlots w slot \<noteq> None \<and> flag w (slot_context (slotInfo w slot))
        \<and> lastTriggered (slotInfo w slot) = Some l \<and> now w < l + period
        \<and> l + period - now w \<le> 2147483647 \<longrightarrow>
        tasks (start slot Cooldown period h w)
          = tasks w @ [Task slot (length (heap w)) h (AtTimer (l + period))]
        \<and> calls (start slot Cooldown period h w) = calls w)
   \<and> (w = run evs init \<and> executing (slotInfo w slot) = None \<and> \<not> inherited slot
        \<and> (MySlots w slot = None \<or> flag w (slot_context (slotInfo w slot)))
        \<and> nullish (lastTriggered (slotInfo w slot)) (- period) + period - now w \<le> 0 \<longrightarrow>
        take (Suc (length (calls w))) (calls (start slot Cooldown period h w))
          = calls w @ [(slot, length (heap (snd (getOrCreateSlotInfo slot w))), now w)])"
proof -
  have 2: "tasks (start slot Cooldown period h w)
          = tasks w @ [Task slot (length (heap w)) h (AtTimer (l + period))]
        \<and> calls (start slot Cooldown period h w) = calls w"
    if "MySlots w slot \<noteq> None" "flag w (slot_context (slotInfo w slot))"
      "lastTriggered (slotInfo w slot) = Some l" "now w < l + period"
      "l + period - now w \<le> 2147483647"
  proof -
    have "0 < l + period - now w" using that(4) by simp
    from start_ignore_timer [OF that(1,2) this that(5), of h] that(3,4)
    show ?thesis by (simp add: start_cooldown_eq max_def)
  qed
  have 3: "take (Suc (length (calls w))) (calls (start slot Cooldown period h w))
          = calls w @ [(slot, length (heap (snd (getOrCreateSlotInfo slot w))), now w)]"
    if "w = run evs init" "executing (slotInfo w slot) = None" "\<not> inherited slot"
      "MySlots w slot = None \<or> flag w (slot_context (slotInfo w slot))"
      "nullish (lastTriggered (slotInfo w slot)) (- period) + period - now w \<le> 0"
  proof -
    have I: "wf_slots w" unfolding that(1) by (rule wf_slots_run)
    show ?thesis
      by (rule start_zero_any(1) [OF I that(2) usableI [OF that(3)]])
         (use that(4,5) in \<open>auto simp: domIff timeToNext_def timeNow_def\<close>)
  qed
  from start_cooldown_eq 2 3 show ?thesis by blast
qed

theorem cooldown_is_ignore_witness:
  "tasks (start ''foo'' Cooldown 1000 Sync (run [Start ''foo'' Cooldown 1000 Sync, Advance 400] init))
     = [Task ''foo'' 2 Sync (AtTimer 1000)]
   \<and> take 1 (calls (start ''foo'' Cooldown 1000 Sync (run [Advance 5] init))) = [(''foo'', 1, 5)]"
proof -
  let ?w = "run [Start ''foo'' Cooldown 1000 Sync, Advance 400] init"
  have h: "MySlots ?w ''foo'' \<noteq> None" "flag ?w (slot_context (slotInfo ?w ''foo''))"
    "lastTriggered (slotInfo ?w ''foo'') = Some 0" "now ?w < 0 + 1000"
    "0 + 1000 - now ?w \<le> 2147483647"
    "tasks ?w = []" "length (heap ?w) = 2"
    by code_simp+
  let ?v = "run [Advance 5] init"
  have g: "executing (slotInfo ?v ''foo'') = None" "MySlots ?v ''foo'' = None"
    "\<not> inherited ''foo''"
    "nullish (lastTriggered (slotInfo ?v ''foo'')) (- 1000) + 1000 - now ?v \<le> 0"
    "calls ?v = []" "length (heap (snd (getOrCreateSlotInfo ''foo'' ?v))) = 1" "now ?v = 5"
    by code_simp+
  note c1 = cooldown_is_ignore [where slot = "''foo''" and period = 1000 and h = Sync
      and w = ?w and l = 0, THEN conjunct2, THEN conjunct1]
  note c2 = cooldown_is_ignore [where slot = "''foo''" and period = 1000 and h = Sync
      and w = ?v and evs = "[Advance 5]", THEN conjunct2, THEN conjunct2]
  from c1 h c2 g show ?thesis by simp
qed

subsection \<open>C6: onCD\<close>

text \<open>
  Claim C6.  \<open>onCD(slot, period)\<close> is true exactly when
  \<open>(lastTriggered ?? -period) + period - now > 0\<close>; it changes nothing but creates the
  slot's state when the lookup of line 50 finds nothing; and for a slot that never fired
  it is false for every non-negative period.  The clock is \<open>Date.getTime()\<close>,
  milliseconds since 1970, and the last part is stated for a clock that is not negative.
\<close>

theorem onCD_spec:
  "fst (onCD slot period w) =
     (0 < nullish (lastTriggered (slotInfo w slot)) (- period) + period - now w)
   \<and> snd (onCD slot period w) =
       (if MySlots w slot \<noteq> None \<or> inherited slot then w
        else w\<lparr>heap := heap w @ [True],
               MySlots := (MySlots w)(slot \<mapsto>
                 \<lparr>slot_context = length (heap w), lastTriggered = None, executing = None\<rparr>)\<rparr>)
   \<and> (lastTriggered (slotInfo w slot) = None \<and> 0 \<le> period \<and> 0 \<le> now w
        \<longrightarrow> \<not> fst (onCD slot period w))"
proof -
  have "snd (onCD slot period w) =
       (if MySlots w slot \<noteq> None \<or> inherited slot then w
        else w\<lparr>heap := heap w @ [True],
               MySlots := (MySlots w)(slot \<mapsto>
                 \<lparr>slot_context = length (heap w), lastTriggered = None, executing = None\<rparr>)\<rparr>)"
    by (auto simp: onCD_def getOrCreateSlotInfo_def Let_def split: option.splits)
  then show ?thesis by (simp add: onCD_fst)
qed

theorem onCD_spec_witness:
  "lastTriggered (slotInfo init ''foo'') = None \<and> (0::int) \<le> 1000 \<and> 0 \<le> now init
   \<and> \<not> fst (onCD ''foo'' 1000 init)"
  using onCD_spec [of "''foo''" 1000 init]
  by (simp add: init_def slotInfo_def)

subsection \<open>C7: a period of zero\<close>

text \<open>
  As the claim states it, every call with period 0 invokes its handler within the call.
  An ignore-mode call on a slot that is not idle is dropped, and a call on a slot with an
  execution in flight is parked at line 170 until that execution ends.
\<close>

theorem zero_period_not_always_run:
  "calls (run [Start ''foo'' Ignore 1000 Sync, Start ''foo'' Ignore 0 Sync] init) = []
   \<and> calls (run [Start ''foo'' Push 0 Async, Start ''foo'' Push 0 Sync] init) = [(''foo'', 1, 0)]
   \<and> tasks (run [Start ''foo'' Push 0 Async, Start ''foo'' Push 0 Sync] init)
       = [Task ''foo'' 1 Async (AtHandler 0), Task ''foo'' 2 Sync (AtExecuting 0)]"
  by code_simp

text \<open>
  Claim C7, amended.  A call with period 0, or a cooldown-mode call whose recomputed
  period is 0, that is admitted (push mode, or the slot is idle) on a slot that records no
  execution and whose name \<open>MySlots\<close> does not inherit invokes its handler within the
  call, whatever happened in the registry before and whatever the handler does: the
  clock has not moved, the invocation is the next entry of the log, at the time of the
  call, and the call is suspended nowhere before it.  With a handler that does not call
  back into the registry it is the only new entry, and the only suspended call that the
  call leaves behind is the one that awaits the promise its own handler returned.
\<close>

theorem zero_period_synchronous:
  assumes "w = run evs init" and "executing (slotInfo w slot) = None"
    and "\<not> inherited slot"
    and "mode = Push \<or> MySlots w slot = None \<or> flag w (slot_context (slotInfo w slot))"
    and "(mode \<noteq> Cooldown \<and> period = 0) \<or>
         (mode = Cooldown \<and> nullish (lastTriggered (slotInfo w slot)) (- period) + period - now w \<le> 0)"
  shows "take (Suc (length (calls w))) (calls (start slot mode period h w))
           = calls w @ [(slot, length (heap (snd (getOrCreateSlotInfo slot w))), now w)]
       \<and> now (start slot mode period h w) = now w
       \<and> (plain h \<longrightarrow>
            calls (start slot mode period h w)
              = calls w @ [(slot, length (heap (snd (getOrCreateSlotInfo slot w))), now w)]
          \<and> tasks (start slot mode period h w)
              = tasks w @ (if h = Async
                           then [Task slot (length (heap (snd (getOrCreateSlotInfo slot w)))) h
                                   (AtHandler (length (promises w)))]
                           else []))"
proof -
  have I: "wf_slots w" unfolding assms(1) by (rule wf_slots_run)
  have us: "usable w slot" using assms(3) by (rule usableI)
  have a: "mode = Push \<or> slot \<notin> dom (MySlots w) \<or> flag w (slot_context (slotInfo w slot))"
    using assms(4) by (auto simp: domIff)
  have z: "(mode \<noteq> Cooldown \<and> period = 0) \<or>
         (mode = Cooldown \<and> timeToNext (Some (slotInfo w slot)) period w \<le> 0)"
    using assms(5) by (simp add: timeToNext_def timeNow_def)
  from start_zero_any [OF I assms(2) us a z] start_zero_effect(1,2) [OF I assms(2) us a z]
  show ?thesis by blast
qed

theorem zero_period_synchronous_witness:
  "calls (start ''foo'' Ignore 0 Async (run [Start ''bar'' Push 5 Sync] init)) = [(''foo'', 3, 0)]
   \<and> tasks (start ''foo'' Ignore 0 Async (run [Start ''bar'' Push 5 Sync] init))
       = [Task ''bar'' 1 Sync (AtTimer 5), Task ''foo'' 3 Async (AtHandler 0)]"
proof -
  let ?w = "run [Start ''bar'' Push 5 Sync] init"
  have h: "executing (slotInfo ?w ''foo'') = None" "\<not> inherited ''foo''"
    "Ignore = Push \<or> MySlots ?w ''foo'' = None \<or> flag ?w (slot_context (slotInfo ?w ''foo''))"
    "(Ignore \<noteq> Cooldown \<and> (0::int) = 0) \<or>
       (Ignore = Cooldown \<and> nullish (lastTriggered (slotInfo ?w ''foo'')) (- 0) + 0 - now ?w \<le> 0)"
    by code_simp+
  have v: "calls ?w = []" "length (heap (snd (getOrCreateSlotInfo ''foo'' ?w))) = 3" "now ?w = 0"
    "tasks ?w = [Task ''bar'' 1 Sync (AtTimer 5)]" "length (promises ?w) = 0" "plain Async"
    by code_simp+
  from zero_period_synchronous [OF refl h, where h = Async] v show ?thesis by simp
qed

subsection \<open>C8: the trigger time\<close>



subsection \<open>C9: cancel\<close>

text \<open>
  For a slot name that has state in the table, or for which line 51 creates it,
  \<open>cancel(slot)\<close> returns, and what it does is to set the flag of the slot's current
  context and nothing else.  Twice is the same as once, on a slot whose current context
  is already cancelled it is the identity, and the trigger times, \<open>executing\<close>, the
  suspended calls, the invocation log and every answer of \<open>onCD\<close> are unchanged.
\<close>

lemma cancel_frame:
  assumes "MySlots w slot \<noteq> None \<or> \<not> inherited slot"
  shows "\<exists>w'. cancel slot w = Inr w' \<and> cancel slot w' = Inr w'
     \<and> (MySlots w slot \<noteq> None \<and> flag w (slot_context (slotInfo w slot)) \<longrightarrow> w' = w)
     \<and> (MySlots w slot \<noteq> None \<longrightarrow> w' = set_cancel (slot_context (slotInfo w slot)) w)
     \<and> (\<forall>s. lastTriggered (slotInfo w' s) = lastTriggered (slotInfo w s)
           \<and> executing (slotInfo w' s) = executing (slotInfo w s)
           \<and> (\<forall>period. fst (onCD s period w') = fst (onCD s period w)))
     \<and> tasks w' = tasks w \<and> calls w' = calls w \<and> promises w' = promises w \<and> now w' = now w"
proof -
  have us: "usable w slot" using assms by (simp add: usable_def)
  define w1 where "w1 = snd (getOrCreateSlotInfo slot w)"
  define w' where "w' = set_cancel (slot_context (slotInfo w1 slot)) w1"
  have g: "getOrCreateSlotInfo slot w = (Some (slotInfo w1 slot), w1)"
    using getOrCreate_fst [OF us] by (simp add: w1_def prod_eq_iff)
  have 0: "cancel slot w = Inr w'" by (simp add: cancel_def g w'_def)
  have d: "MySlots w' slot \<noteq> None"
    using getOrCreate_dom [OF us] by (auto simp: w'_def w1_def)
  then have g': "getOrCreateSlotInfo slot w' = (Some (slotInfo w' slot), w')"
    by (auto simp: getOrCreateSlotInfo_def slotInfo_def)
  have 1: "cancel slot w' = Inr w'"
    by (simp add: cancel_def g') (simp add: w'_def set_cancel_def)
  have 3: "w' = set_cancel (slot_context (slotInfo w slot)) w" if "MySlots w slot \<noteq> None"
    using that by (simp add: w'_def w1_def getOrCreate_old domIff)
  have 2: "w' = w" if "MySlots w slot \<noteq> None" "flag w (slot_context (slotInfo w slot))"
    using that(2) unfolding 3 [OF that(1)]
    by (simp add: set_cancel_def flag_def list_update_same_conv)
  have 4: "lastTriggered (slotInfo w' s) = lastTriggered (slotInfo w s)"
    "executing (slotInfo w' s) = executing (slotInfo w s)"
    "tasks w' = tasks w" "calls w' = calls w" "promises w' = promises w" "now w' = now w" for s
    by (simp_all add: w'_def w1_def getOrCreate_slotInfo getOrCreate_fields)
  have 5: "fst (onCD s period w') = fst (onCD s period w)" for s period
    by (simp add: onCD_fst 4)
  from 0 1 2 3 4 5 show ?thesis by blast
qed

lemma cancel_inherited: "inherited s \<Longrightarrow> MySlots w s = None \<Longrightarrow> cancel s w = Inl TypeError"
  by (simp add: cancel_def getOrCreateSlotInfo_def)

text \<open>
  Claim C9 is about \<open>cancel\<close> of any slot, and the source says that
  \<open>getOrCreateSlotInfo\<close> gets the slot's state or creates it (line 48).  For a name that
  the object \<open>MySlots\<close> inherits, such as \<open>constructor\<close>, the lookup of line 50 returns
  the inherited value, no state is created, and the write to \<open>slotInfo.context.cancel\<close>
  at line 199 throws a \<open>TypeError\<close>: \<open>cancel\<close> does not return, no flag is set, and the
  same happens with every further call.
\<close>

theorem cancel_inherited_name_throws:
  "cancel ''constructor'' init = Inl TypeError
   \<and> cancel ''toString'' (run [Start ''foo'' Push 1000 Sync, Cancel ''toString''] init)
       = Inl TypeError
   \<and> MySlots (run [Cancel ''constructor''] init) ''constructor'' = None
   \<and> heap (run [Cancel ''constructor''] init) = []"
proof -
  let ?w = "run [Start ''foo'' Push 1000 Sync, Cancel ''toString''] init"
  have "inherited ''constructor''" "MySlots init ''constructor'' = None"
    "inherited ''toString''" "MySlots ?w ''toString'' = None"
    "MySlots (run [Cancel ''constructor''] init) ''constructor'' = None"
    "heap (run [Cancel ''constructor''] init) = []"
    by code_simp+
  then show ?thesis by (simp add: cancel_inherited)
qed

subsection \<open>C10: pushes with period zero are not coalesced\<close>

text \<open>
  For a slot name that \<open>MySlots\<close> does not inherit and a handler that does not call back
  into the registry: \<open>N\<close> push-mode calls with period 0, each made when the slot records
  no execution, invoke the handler \<open>N\<close> times, each within its call and at the time of the
  call.  A handler that returns no promise leaves the slot without an execution, so that
  with such a handler it is enough that the slot records no execution before the first
  call.
\<close>

lemma zero_period_pushes:
  assumes "w = run evs init" and "\<not> inherited slot" and "plain h"
  shows "((\<forall>k<n. executing (slotInfo (run (replicate k (Start slot Push 0 h)) w) slot) = None) \<longrightarrow>
          calls (run (replicate n (Start slot Push 0 h)) w)
            = calls w @ map (\<lambda>i. (slot, length (heap (snd (getOrCreateSlotInfo slot w))) + i, now w)) [0..<n]
          \<and> length (calls (run (replicate n (Start slot Push 0 h)) w)) = length (calls w) + n)
       \<and> (h \<noteq> Async \<and> executing (slotInfo w slot) = None \<longrightarrow>
           (\<forall>k<n. executing (slotInfo (run (replicate k (Start slot Push 0 h)) w) slot) = None))"
proof -
  have I: "wf_registry w" unfolding assms(1) by (rule wf_registry_run [OF wf_registry_init])
  have 1: "calls (run (replicate n (Start slot Push 0 h)) w)
            = calls w @ map (\<lambda>i. (slot, length (heap (snd (getOrCreateSlotInfo slot w))) + i, now w)) [0..<n]
          \<and> length (calls (run (replicate n (Start slot Push 0 h)) w)) = length (calls w) + n"
    if "\<forall>k<n. executing (slotInfo (run (replicate k (Start slot Push 0 h)) w) slot) = None"
    using zero_pushes_idle [OF I assms(2,3) that] by simp
  have 2: "\<forall>k<n. executing (slotInfo (run (replicate k (Start slot Push 0 h)) w) slot) = None"
    if "h \<noteq> Async \<and> executing (slotInfo w slot) = None"
    using zero_pushes_sync_idle [OF I assms(2) _ assms(3)] that by blast
  from 1 2 show ?thesis by blast
qed

text \<open>
  Claim C10 is about \<open>N\<close> push-mode calls with period 0 on any idle slot, as in the test
  \<open>push does not yield when period is 0\<close>.  With the slot name \<open>constructor\<close> in place
  of \<open>foo\<close>, the three calls of the test invoke the handler not once: the lookup of line 50
  returns the inherited value, line 149 throws a \<open>TypeError\<close> in each call, each of the
  three promises that \<open>start\<close> returns is rejected, and no state is created for the slot.
\<close>

theorem pushes_on_inherited_name:
  "calls (run (replicate 3 (Start ''constructor'' Push 0 Sync)) init) = []
   \<and> rejected (run (replicate 3 (Start ''constructor'' Push 0 Sync)) init) = [0, 1, 2]
   \<and> tasks (run (replicate 3 (Start ''constructor'' Push 0 Sync)) init) = []
   \<and> MySlots (run (replicate 3 (Start ''constructor'' Push 0 Sync)) init) ''constructor'' = None
   \<and> calls (run (replicate 3 (Start ''foo'' Push 0 Sync)) init)
       = [(''foo'', 1, 0), (''foo'', 2, 0), (''foo'', 3, 0)]"
  by code_simp

end
